theory Spec2Isabelle
  imports Main "HOL-Library.Sublist" "HOL-Library.Word"
begin

section \<open>JavaScript strings and arrays, as far as the adapter uses them\<close>

text \<open>
  Paths are JavaScript strings; the adapter only tests them for substrings, splits them at
  constant separators and concatenates them, so a string is modelled as a list of characters.
  \<open>undefined\<close> is \<open>None\<close>.
\<close>

text \<open>\<open>s.includes(sub)\<close>: does \<open>sub\<close> occur in \<open>s\<close>?\<close>

fun includes_js :: "string \<Rightarrow> string \<Rightarrow> bool" where
  "includes_js [] sub = (sub = [])"
| "includes_js (c # cs) sub = (prefix sub (c # cs) \<or> includes_js cs sub)"

text \<open>
  \<open>find_sep sep s\<close> cuts \<open>s\<close> at the leftmost occurrence of \<open>sep\<close>: the text before
  it and the text after it. This is the one scanning step of \<open>String.prototype.split\<close>.
\<close>

fun find_sep :: "string \<Rightarrow> string \<Rightarrow> (string \<times> string) option" where
  "find_sep sep [] = (if sep = [] then Some ([], []) else None)"
| "find_sep sep (c # cs) =
     (if prefix sep (c # cs) then Some ([], drop (length sep) (c # cs))
      else map_option (\<lambda>(a, b). (c # a, b)) (find_sep sep cs))"

lemma find_sep_Some: "find_sep sep s = Some (a, b) \<Longrightarrow> s = a @ sep @ b"
proof (induction s arbitrary: a)
  case Nil
  then show ?case by (simp split: if_splits)
next
  case (Cons c cs)
  show ?case
  proof (cases "prefix sep (c # cs)")
    case True
    then obtain zs where zs: "c # cs = sep @ zs" by (auto simp: prefix_def)
    from True Cons.prems have "a = []" "b = drop (length sep) (c # cs)" by simp_all
    with zs show ?thesis by simp
  next
    case False
    with Cons.prems obtain a' where "find_sep sep cs = Some (a', b)" "a = c # a'"
      by auto
    with Cons.IH show ?thesis by simp
  qed
qed

text \<open>
  \<open>s.split(sep)\<close>: the pieces of \<open>s\<close> between the successive, non-overlapping
  occurrences of \<open>sep\<close>, scanning from the left. With the empty separator JavaScript
  returns the single characters.
\<close>

function split_js :: "string \<Rightarrow> string \<Rightarrow> string list" where
  "split_js sep s =
     (if sep = [] then map (\<lambda>c. [c]) s
      else case find_sep sep s of
             None \<Rightarrow> [s]
           | Some (a, b) \<Rightarrow> a # split_js sep b)"
  by pat_completeness auto
termination
proof (relation "measure (\<lambda>(sep, s). length s)")
  show "wf (measure (\<lambda>(sep, s). length s))" by simp
next
  fix sep s :: string and x2 x y
  assume "sep \<noteq> []" "find_sep sep s = Some x2" "(x, y) = x2"
  then have "s = x @ sep @ y" by (simp add: find_sep_Some)
  with \<open>sep \<noteq> []\<close> show "((sep, y), (sep, s)) \<in> measure (\<lambda>(sep, s). length s)"
    by (cases sep) auto
qed

declare split_js.simps [simp del]

text \<open>\<open>xs[i]\<close> on an array: \<open>undefined\<close> beyond the end.\<close>

fun nth_opt :: "'a list \<Rightarrow> nat \<Rightarrow> 'a option" where
  "nth_opt [] i = None"
| "nth_opt (x # xs) 0 = Some x"
| "nth_opt (x # xs) (Suc i) = nth_opt xs i"

text \<open>String concatenation converts \<open>undefined\<close> to the text \<open>undefined\<close>.\<close>

definition js_str :: "string option \<Rightarrow> string" where
  "js_str v = (case v of None \<Rightarrow> ''undefined'' | Some s \<Rightarrow> s)"

text \<open>
  String concatenation converts an array of strings with \<open>Array.prototype.toString\<close>,
  which is \<open>join(',')\<close>.
\<close>

fun join :: "string \<Rightarrow> string list \<Rightarrow> string" where
  "join sep [] = []"
| "join sep [x] = x"
| "join sep (x # y # ys) = x @ sep @ join sep (y # ys)"

definition array_str :: "string list \<Rightarrow> string" where
  "array_str xs = join '','' xs"


section \<open>Path translation\<close>

subsection \<open>Editor path to engine path\<close>

text \<open>
  The session's \<open>setBreakPointsRequest\<close> computes the path it sends to the engine from
  \<open>args.source.path\<close>, which may be absent:
  \<^verbatim>\<open>
  let lldbPath = args.source.path?.split("code/")[1];
  if (lldbPath?.includes('sdk')) {
      lldbPath = 'home/home/' + lldbPath.split('sdk/program/')[1];
  } else if (lldbPath?.includes('rust-solana')) {
      lldbPath = '/home/runner/work/bpf-tools/bpf-tools/out/rust/'
                 + lldbPath.split('rust-solana-1.59.0/')[1];
  } else {
      lldbPath = 'home/' + lldbPath;
  }
  \<close>
\<close>

definition toEnginePath :: "string option \<Rightarrow> string" where
  "toEnginePath path =
     (let lldbPath = (case path of None \<Rightarrow> None
                                 | Some p \<Rightarrow> nth_opt (split_js ''code/'' p) 1)
      in case lldbPath of
           None \<Rightarrow> ''home/'' @ js_str None
         | Some R \<Rightarrow>
             if includes_js R ''sdk''
             then ''home/home/'' @ js_str (nth_opt (split_js ''sdk/program/'' R) 1)
             else if includes_js R ''rust-solana''
             then ''/home/runner/work/bpf-tools/bpf-tools/out/rust/''
                    @ js_str (nth_opt (split_js ''rust-solana-1.59.0/'' R) 1)
             else ''home/'' @ js_str (Some R))"

text \<open>
  The runtime's \<open>setBreakPoint\<close> has its own copy of the rule, on a path that is always
  a string. It reads a property of \<open>lldbPath\<close> without \<open>?.\<close>, which throws a
  TypeError when the path has no \<open>code/\<close>, and it concatenates the whole array that
  \<open>split\<close> returns:
  \<^verbatim>\<open>
  let lldbPath = path.split("code/")[1];
  if (lldbPath.includes('sdk')) {
      lldbPath = 'home/home/' + lldbPath.split('sdk/program/');
  } else if (lldbPath.includes('rust-solana')) {
      lldbPath = '/home/runner/work/bpf-tools/bpf-tools/out/rust/'
                 + lldbPath.split('rust-solana-1.59.0/');
  } else {
      lldbPath = 'home/' + lldbPath.split('code/');
  }
  \<close>
\<close>

datatype error = TypeError | EngineError | SyntaxError

definition toEnginePath_runtime :: "string \<Rightarrow> error + string" where
  "toEnginePath_runtime path =
     (case nth_opt (split_js ''code/'' path) 1 of
        None \<Rightarrow> Inl TypeError
      | Some R \<Rightarrow>
          if includes_js R ''sdk''
          then Inr (''home/home/'' @ array_str (split_js ''sdk/program/'' R))
          else if includes_js R ''rust-solana''
          then Inr (''/home/runner/work/bpf-tools/bpf-tools/out/rust/''
                      @ array_str (split_js ''rust-solana-1.59.0/'' R))
          else Inr (''home/'' @ array_str (split_js ''code/'' R)))"

subsection \<open>Engine path to editor path\<close>

text \<open>
  \<open>lldbRun\<close> rewrites the source path of a stack frame, which may be absent:
  \<^verbatim>\<open>
  if (sourcePath?.includes('home/home/')) {
      sourcePath = solSdkPath + sourcePath.split('home/home/')[1];
  } else if (sourcePath?.includes('/home/runner')) {
      sourcePath = rustCorePath + sourcePath.split('out/rust/')[1];
  } else {
      sourcePath = projectPath + sourcePath?.split('home/')[1];
  }
  \<close>
\<close>

definition solSdkPath :: string where
  "solSdkPath = ''/home/wj/temp/test_theia/debug-test/code/sdk/program/''"

definition rustCorePath :: string where
  "rustCorePath = ''/home/wj/temp/test_theia/debug-test/code/rust-solana-1.59.0/''"

definition projectPath :: string where
  "projectPath = ''/home/wj/temp/test_theia/debug-test/code/''"

definition toEditorPath :: "string option \<Rightarrow> string" where
  "toEditorPath sourcePath =
     (case sourcePath of
        None \<Rightarrow> projectPath @ js_str None
      | Some p \<Rightarrow>
          if includes_js p ''home/home/''
          then solSdkPath @ js_str (nth_opt (split_js ''home/home/'' p) 1)
          else if includes_js p ''/home/runner''
          then rustCorePath @ js_str (nth_opt (split_js ''out/rust/'' p) 1)
          else projectPath @ js_str (nth_opt (split_js ''home/'' p) 1))"


section \<open>Rewriting a stack-trace response\<close>

text \<open>
  The fields of the Debug Adapter Protocol's \<open>Source\<close>, \<open>StackFrame\<close> and stack-trace
  body that \<open>lldbRun\<close> reads or writes; an optional property is an \<open>option\<close>.
\<close>

record source =
  src_name :: "string option"
  src_path :: "string option"
  sourceReference :: "int option"

record stackFrame =
  frame_id :: int
  frame_name :: string
  frame_source :: "source option"
  frame_line :: int
  frame_column :: int

record stackTraceBody =
  stackFrames :: "stackFrame list"
  totalFrames :: "int option"

text \<open>
  One turn of the loop over the frames:
  \<^verbatim>\<open>
  if (responseAdj.body.stackFrames[id].source?.sourceReference !== undefined) {
      responseAdj.body.stackFrames[id].source!.name = responseAdj.body.stackFrames[id].name;
      continue;
  }
  let sourcePath = responseAdj.body.stackFrames[id].source?.path;
  ... (the reverse rule, toEditorPath) ...
  responseAdj.body.stackFrames[id].source!.path = sourcePath;
  \<close>
  A frame without a source passes the test and the rule (on \<open>undefined\<close>), and the final
  assignment to a property of \<open>undefined\<close> throws a TypeError.
\<close>

definition adjustFrame :: "stackFrame \<Rightarrow> error + stackFrame" where
  "adjustFrame f =
     (case frame_source f of
        None \<Rightarrow> Inl TypeError
      | Some src \<Rightarrow>
          if sourceReference src \<noteq> None
          then Inr (f\<lparr>frame_source := Some (src\<lparr>src_name := Some (frame_name f)\<rparr>)\<rparr>)
          else Inr (f\<lparr>frame_source := Some (src\<lparr>src_path := Some (toEditorPath (src_path src))\<rparr>)\<rparr>))"

text \<open>
  \<open>for (var id=0; id<totalFrames; id++)\<close>, updating the frames in place. Reading a
  property of \<open>stackFrames[id]\<close> beyond the end of the array throws a TypeError.
\<close>

function adjustLoop :: "int \<Rightarrow> nat \<Rightarrow> stackFrame list \<Rightarrow> error + stackFrame list" where
  "adjustLoop bound i fs =
     (if int i < bound
      then if i < length fs
           then case adjustFrame (fs ! i) of
                  Inl e \<Rightarrow> Inl e
                | Inr f \<Rightarrow> adjustLoop bound (Suc i) (fs[i := f])
           else Inl TypeError
      else Inr fs)"
  by pat_completeness auto
termination
  by (relation "measure (\<lambda>(bound, i, fs). nat (bound - int i))") auto

declare adjustLoop.simps [simp del]

text \<open>
  \<^verbatim>\<open>
  let totalFrames = responseAdj.body.totalFrames;
  totalFrames = (totalFrames !== undefined) ? totalFrames : 0;
  for (...) { ... }
  \<close>
\<close>

definition adjustStackTrace :: "stackTraceBody \<Rightarrow> error + stackTraceBody" where
  "adjustStackTrace b =
     (let bound = (case totalFrames b of None \<Rightarrow> 0 | Some t \<Rightarrow> t)
      in case adjustLoop bound 0 (stackFrames b) of
           Inl e \<Rightarrow> Inl e
         | Inr fs \<Rightarrow> Inr (b\<lparr>stackFrames := fs\<rparr>))"

section \<open>The runtime\<close>

text \<open>
  \<open>ISolanaBreakpoint\<close>. Ids and lines are JavaScript numbers that hold integers; the
  counter behind the ids starts at 1 and only ever grows by 1, which is exact far beyond any
  number of breakpoints a session creates, so they are modelled as unbounded integers.
\<close>

record breakpoint =
  bp_id :: int
  bp_line :: int
  verified :: bool

text \<open>
  The events of the runtime. \<open>sendEvent\<close> does not call the listeners: it sets a timer
  of 0 ms whose callback emits the event, so an event is queued, not emitted, when the method
  that sent it returns. \<open>breakpointValidated\<close> carries the breakpoint object; its
  \<open>verified\<close> flag is never reset, so the listener reads the value the object had when
  the event was sent.
  \<^verbatim>\<open>
  private sendEvent(event: string, ... args: any[]): void {
      setTimeout(() => {
          this.emit(event, ...args);
      }, 0);
  }
  \<close>
\<close>

datatype event =
    StopOnEntry
  | StopOnStep
  | StopOnBreakpoint
  | BreakpointValidated breakpoint
  | EndEvent

text \<open>
  The fields of \<open>SolanaRuntime\<close>: the source lines, the memory buffer, the breakpoints of
  each file and the next breakpoint id; then the events that \<open>sendEvent\<close> has queued on
  timers that have not fired yet, and the events that have been emitted to the listeners, both
  in their order.
\<close>

record runtime =
  sourceLines :: "string list"
  memory :: "8 word list"
  breakPoints :: "string \<rightharpoonup> breakpoint list"
  breakpointId :: int
  queued :: "event list"
  emitted :: "event list"

text \<open>The state the constructor leaves.\<close>

definition newRuntime :: runtime where
  "newRuntime = \<lparr>sourceLines = [], memory = [], breakPoints = Map.empty, breakpointId = 1,
                 queued = [], emitted = []\<rparr>"

text \<open>
  The embedded engine is not part of the repository (only its type declarations are). A call
  \<open>await this.lldb.ccall(name, ...)\<close> that returns nothing to the runtime either resolves or
  rejects; the engine is a parameter that says which. Before \<open>initLLDB\<close> has run,
  \<open>this.lldb\<close> is \<open>undefined\<close> and the call throws: an engine that rejects every call.
\<close>

datatype arg = AStr string | ANum int

type_synonym engine = "string \<Rightarrow> arg list \<Rightarrow> bool"

definition sendEvent :: "event \<Rightarrow> runtime \<Rightarrow> runtime" where
  "sendEvent e rt = rt\<lparr>queued := queued rt @ [e]\<rparr>"

text \<open>
  The oldest timer fires, in a turn of the event loop of its own, after the method that set
  it has returned or is suspended at an \<open>await\<close>: its callback emits the event.
\<close>

definition fireTimer :: "runtime \<Rightarrow> runtime" where
  "fireTimer rt =
     (case queued rt of
        [] \<Rightarrow> rt
      | e # es \<Rightarrow> rt\<lparr>queued := es, emitted := emitted rt @ [e]\<rparr>)"

fun fireTimers :: "nat \<Rightarrow> runtime \<Rightarrow> runtime" where
  "fireTimers 0 rt = rt"
| "fireTimers (Suc n) rt = fireTimers n (fireTimer rt)"

text \<open>
  \<open>continue\<close> calls the engine on its own, not through the session's \<open>lldbRun\<close>:
  \<^verbatim>\<open>
  public async continue() {
      await this.lldb.ccall('execute_command', null, ['string'], ['continue'], {async: true});
      this.sendEvent('stopOnBreakpoint');
  }
  \<close>
  \<open>next\<close>, \<open>stepIn\<close> and \<open>stepOut\<close> do the same with \<open>request_next\<close>,
  \<open>request_stepIn\<close> and \<open>request_stepOut\<close> and the event \<open>stopOnStep\<close>.
\<close>

definition continue_runtime :: "engine \<Rightarrow> runtime \<Rightarrow> (error + unit) \<times> runtime" where
  "continue_runtime ccall rt =
     (if \<not> ccall ''execute_command'' [AStr ''continue''] then (Inl EngineError, rt)
      else (Inr (), sendEvent StopOnBreakpoint rt))"

subsection \<open>getBreakpoints\<close>

text \<open>
  The loop of \<open>getBreakpoints\<close> over the characters of the line, with its flag
  \<open>sawSpace\<close> and its index \<open>i\<close>.
\<close>

fun scanLine :: "bool \<Rightarrow> nat \<Rightarrow> string \<Rightarrow> nat list" where
  "scanLine sawSpace i [] = []"
| "scanLine sawSpace i (c # cs) =
     (if c \<noteq> CHR '' ''
      then if sawSpace then i # scanLine False (Suc i) cs else scanLine sawSpace (Suc i) cs
      else scanLine True (Suc i) cs)"

text \<open>
  \<open>const l = this._sourceLines[line]\<close> is \<open>undefined\<close> when the line is not an index
  of the array, and \<open>l.length\<close> then throws a TypeError. The path is not used.
\<close>

definition getBreakpoints :: "string \<Rightarrow> int \<Rightarrow> runtime \<Rightarrow> error + nat list" where
  "getBreakpoints path line rt =
     (if 0 \<le> line \<and> nat line < length (sourceLines rt)
      then Inr (scanLine True 0 (sourceLines rt ! nat line))
      else Inl TypeError)"

text \<open>
  The specification of its result: the starts of the runs of non-space characters. Index
  \<open>i\<close> starts a run when the character there is not a space and it is the first of
  the line or follows a space. A space is the character \<open>' '\<close>, as in the code; a tab is
  a character like any other.
\<close>

definition runStart :: "string \<Rightarrow> nat \<Rightarrow> bool" where
  "runStart l i \<longleftrightarrow> l ! i \<noteq> CHR '' '' \<and> (i = 0 \<or> l ! (i - 1) = CHR '' '')"

subsection \<open>Setting and clearing breakpoints\<close>

text \<open>
  \<^verbatim>\<open>
  const bps = this._breakPoints.get(path);
  if (bps) {
      bps.forEach(bp => { bp.verified = true; this.sendEvent('breakpointValidated', bp); });
  }
  \<close>
  Each turn touches one record and queues one event, so the records are all set first here,
  and the events queued in the order of the list.
\<close>

definition verifyBreakpoints :: "string \<Rightarrow> runtime \<Rightarrow> runtime" where
  "verifyBreakpoints path rt =
     (case breakPoints rt path of
        None \<Rightarrow> rt
      | Some bps \<Rightarrow>
          let bps' = map (\<lambda>bp. bp\<lparr>verified := True\<rparr>) bps
          in foldl (\<lambda>r bp. sendEvent (BreakpointValidated bp) r)
               (rt\<lparr>breakPoints := (breakPoints rt)(path \<mapsto> bps')\<rparr>) bps')"

text \<open>
  The middle of \<open>setBreakPoint\<close>: the new record takes the next id, unverified, and is
  pushed on the file's list, which is created when the file has none.
  \<^verbatim>\<open>
  const bp: ISolanaBreakpoint = { verified: false, line, id: this._breakpointId++ };
  let bps = this._breakPoints.get(path);
  if (!bps) {
      bps = new Array<ISolanaBreakpoint>();
      this._breakPoints.set(path, bps);
  }
  bps.push(bp);
  \<close>
\<close>

definition bpsOf :: "runtime \<Rightarrow> string \<Rightarrow> breakpoint list" where
  "bpsOf rt path = (case breakPoints rt path of None \<Rightarrow> [] | Some bps \<Rightarrow> bps)"

definition addBreakpoint :: "string \<Rightarrow> int \<Rightarrow> runtime \<Rightarrow> breakpoint \<times> runtime" where
  "addBreakpoint path line rt =
     (let bp = \<lparr>bp_id = breakpointId rt, bp_line = line, verified = False\<rparr>
      in (bp, rt\<lparr>breakpointId := breakpointId rt + 1,
                  breakPoints := (breakPoints rt)(path \<mapsto> bpsOf rt path @ [bp])\<rparr>))"

text \<open>
  \<open>setBreakPoint\<close>: the path translation (a TypeError when the path has no \<open>code/\<close>),
  the engine call (awaited; a rejection ends the method), the new record, the verification.
  Both failures come before the first write to the runtime. The method returns the object
  it pushed, which \<open>verifyBreakpoints\<close> has updated in place by then: the model reads it
  back from the list, at the index where it was pushed.
\<close>

definition setBreakPoint ::
  "engine \<Rightarrow> string \<Rightarrow> int \<Rightarrow> runtime \<Rightarrow> (error + breakpoint) \<times> runtime" where
  "setBreakPoint ccall path line rt =
     (case toEnginePath_runtime path of
        Inl e \<Rightarrow> (Inl e, rt)
      | Inr lldbPath \<Rightarrow>
          if \<not> ccall ''set_breakpoint'' [AStr lldbPath, ANum line] then (Inl EngineError, rt)
          else let (bp, rt1) = addBreakpoint path line rt;
                   rt2 = verifyBreakpoints path rt1
               in (Inr (bpsOf rt2 path ! length (bpsOf rt path)), rt2))"

text \<open>\<open>bps.findIndex(p)\<close>: the first index whose element satisfies \<open>p\<close>.\<close>

fun findIndex :: "('a \<Rightarrow> bool) \<Rightarrow> 'a list \<Rightarrow> nat option" where
  "findIndex p [] = None"
| "findIndex p (x # xs) = (if p x then Some 0 else map_option Suc (findIndex p xs))"

text \<open>
  \<^verbatim>\<open>
  const bps = this._breakPoints.get(path);
  if (bps) {
      const index = bps.findIndex(bp => bp.line === line);
      if (index >= 0) {
          const bp = bps[index];
          bps.splice(index, 1);
          return bp;
      }
  }
  return undefined;
  \<close>
\<close>

definition clearBreakPoint :: "string \<Rightarrow> int \<Rightarrow> runtime \<Rightarrow> breakpoint option \<times> runtime" where
  "clearBreakPoint path line rt =
     (case breakPoints rt path of
        None \<Rightarrow> (None, rt)
      | Some bps \<Rightarrow>
          (case findIndex (\<lambda>bp. bp_line bp = line) bps of
             None \<Rightarrow> (None, rt)
           | Some i \<Rightarrow>
               (Some (bps ! i),
                rt\<lparr>breakPoints := (breakPoints rt)(path \<mapsto> take i bps @ drop (Suc i) bps)\<rparr>)))"

definition clearBreakpoints :: "string \<Rightarrow> runtime \<Rightarrow> runtime" where
  "clearBreakpoints path rt = rt\<lparr>breakPoints := (breakPoints rt)(path := None)\<rparr>"

text \<open>
  A history of the breakpoint store: the calls made on it, in order, and the ids of the
  breakpoints that the completed \<open>setBreakPoint\<close> calls created.
\<close>

datatype store_call = SetBP string int | ClearBP string int | ClearAll string

fun runCalls :: "engine \<Rightarrow> store_call list \<Rightarrow> runtime \<Rightarrow> int list \<times> runtime" where
  "runCalls ccall [] rt = ([], rt)"
| "runCalls ccall (SetBP path line # cs) rt =
     (case setBreakPoint ccall path line rt of
        (Inl e, rt') \<Rightarrow> runCalls ccall cs rt'
      | (Inr bp, rt') \<Rightarrow> (let (ids, rt'') = runCalls ccall cs rt' in (bp_id bp # ids, rt'')))"
| "runCalls ccall (ClearBP path line # cs) rt = runCalls ccall cs (snd (clearBreakPoint path line rt))"
| "runCalls ccall (ClearAll path # cs) rt = runCalls ccall cs (clearBreakpoints path rt)"

section \<open>The session\<close>

subsection \<open>Buffers of bytes\<close>

text \<open>
  \<open>Buffer.prototype.slice(start, end)\<close> and \<open>toString('base64')\<close> belong to the
  platform, not to the repository; they are modelled from their documentation. \<open>slice\<close>
  takes a start index and an end index (not a length); a negative index counts from the end
  of the buffer, and both are clamped to the buffer.
\<close>

definition adjustOffset :: "int \<Rightarrow> nat \<Rightarrow> nat" where
  "adjustOffset off len =
     (if off < 0 then (if off + int len > 0 then nat (off + int len) else 0)
      else if off < int len then nat off
      else len)"

definition buffer_slice :: "'a list \<Rightarrow> int \<Rightarrow> int \<Rightarrow> 'a list" where
  "buffer_slice buf start stop =
     (let s = adjustOffset start (length buf); e = adjustOffset stop (length buf)
      in if s < e then take (e - s) (drop s buf) else [])"

text \<open>The standard base64 encoding, with padding.\<close>

definition base64_alphabet :: string where
  "base64_alphabet = ''ABCDEFGHIJKLMNOPQRSTUVWXYZabcdefghijklmnopqrstuvwxyz0123456789+/''"

definition b64 :: "nat \<Rightarrow> char" where
  "b64 n = base64_alphabet ! n"

fun base64 :: "8 word list \<Rightarrow> string" where
  "base64 [] = []"
| "base64 [a] =
     (let x = unat a
      in [b64 (x div 4), b64 (x mod 4 * 16), CHR ''='', CHR ''=''])"
| "base64 [a, b] =
     (let x = unat a; y = unat b
      in [b64 (x div 4), b64 (x mod 4 * 16 + y div 16), b64 (y mod 16 * 4), CHR ''=''])"
| "base64 (a # b # c # bs) =
     (let x = unat a; y = unat b; z = unat c
      in [b64 (x div 4), b64 (x mod 4 * 16 + y div 16), b64 (y mod 16 * 4 + z div 64),
          b64 (z mod 64)] @ base64 bs)"

subsection \<open>Numbers\<close>

text \<open>
  A JavaScript number is a double. The sums and differences that the session computes are on
  integers, and their results are the nearest doubles: an integer of at most 53 significant
  bits is kept, a longer one is rounded to 53 bits, a tie to the even neighbour, and a
  magnitude that rounds to \<open>2 ^ 1024\<close> or more is infinite.
\<close>

datatype number = Num int | PosInfinity | NegInfinity

fun bitlen :: "nat \<Rightarrow> nat" where
  "bitlen n = (if n = 0 then 0 else Suc (bitlen (n div 2)))"

declare bitlen.simps [simp del]

definition round_nat :: "nat \<Rightarrow> nat" where
  "round_nat a =
     (if bitlen a \<le> 53 then a
      else let sh = bitlen a - 53;
               q = a div 2 ^ sh;
               r = a mod 2 ^ sh;
               h = 2 ^ (sh - 1)
           in (if h < r \<or> (r = h \<and> odd q) then q + 1 else q) * 2 ^ sh)"

definition fl :: "int \<Rightarrow> number" where
  "fl x =
     (let m = round_nat (nat \<bar>x\<bar>)
      in if 2 ^ 1024 \<le> m then (if 0 < x then PosInfinity else NegInfinity)
         else Num (if x < 0 then - int m else int m))"

text \<open>\<open>a + b\<close> and \<open>n - t\<close> on numbers, for integers \<open>a\<close>, \<open>b\<close> and \<open>n\<close>.\<close>

definition js_add :: "int \<Rightarrow> int \<Rightarrow> number" where
  "js_add a b = fl (a + b)"

definition js_sub :: "int \<Rightarrow> number \<Rightarrow> number" where
  "js_sub n t =
     (case t of
        Num v \<Rightarrow> fl (n - v)
      | PosInfinity \<Rightarrow> NegInfinity
      | NegInfinity \<Rightarrow> PosInfinity)"

subsection \<open>Responses and the state of the session\<close>

text \<open>
  A response of the protocol, with the bodies the adapter builds or rewrites. A body that
  the adapter passes on unread is kept as its text.
\<close>

datatype body =
    NoBody
  | ReadMemoryBody string string number
  | StackTraceBody stackTraceBody
  | OtherBody string

record response =
  request_seq :: int
  command :: string
  success :: bool
  body :: body

text \<open>
  An activation of \<open>lldbRun\<close> is suspended at an \<open>await\<close>; \<open>pc\<close> says at which one,
  with the pointers into the engine's memory that the activation holds there:
  \<^item> \<open>Sleeping\<close>: in the loop \<open>while (this._isRunningLldb) await this._sleep(10)\<close>;
  \<^item> \<open>Acquired\<close>: past the loop, the flag set, at the call of \<open>_malloc\<close>;
  \<^item> \<open>Allocated rx\<close>: \<open>_malloc\<close> has returned the request buffer;
  \<^item> \<open>Written rx\<close>: \<open>stringToUTF8\<close> has written the request into it;
  \<^item> \<open>Calling rx\<close>: \<open>ccall\<close> has started the engine function;
  \<^item> \<open>Returned rx tx str\<close>: the engine has returned the response buffer and
    \<open>UTF8ToString\<close> has read the response from it;
  \<^item> \<open>FreedRx tx\<close>: the response is parsed, rewritten and sent, the request buffer freed;
  \<^item> \<open>FreedTx\<close>: the response buffer is freed too;
  \<^item> \<open>Finished\<close>: the flag is cleared and the method has returned;
  \<^item> \<open>Failed bufs\<close>: an exception has ended the method. Nothing catches it: the buffers
    are never freed and the flag is never cleared.
\<close>

datatype pc =
    Sleeping
  | Acquired
  | Allocated nat
  | Written nat
  | Calling nat
  | Returned nat nat string
  | FreedRx nat
  | FreedTx
  | Finished
  | Failed "nat list"

record activation =
  funcName :: string
  request :: string
  pc :: pc

text \<open>
  The fields of \<open>SolanaDebugSession\<close>, the responses it has sent to the editor, and the
  activations of \<open>lldbRun\<close>, in the order of their calls.
\<close>

record session =
  isRunningLldb :: bool
  the_runtime :: runtime
  showHex :: bool
  useInvalidatedEvent :: bool
  sent :: "response list"
  runs :: "activation list"

definition newSession :: session where
  "newSession = \<lparr>isRunningLldb = False, the_runtime = newRuntime, showHex = False,
                 useInvalidatedEvent = False, sent = [], runs = []\<rparr>"

text \<open>
  \<open>sendResponse\<close> is the debug adapter library's. It sends a response unless the response
  carries a sequence number already:
  \<^verbatim>\<open>
  if (response.seq > 0) {
      console.error(`attempt to send more than one response for command ${response.command}`);
  } else {
      this._send('response', response);
  }
  \<close>
  The response that a request handler receives is built by the library for the request, with
  \<open>seq\<close> 0, and is sent once: for it \<open>sendResponse\<close> always sends. A response that
  \<open>lldbRun\<close> has parsed from the engine's text carries the \<open>seq\<close> the engine gave it;
  \<open>sendParsed\<close> is \<open>sendResponse\<close> on such a response, with its \<open>seq\<close> (0 when it
  has none).
\<close>

definition sendResponse :: "response \<Rightarrow> session \<Rightarrow> session" where
  "sendResponse r s = s\<lparr>sent := sent s @ [r]\<rparr>"

definition sendParsed :: "int \<Rightarrow> response \<Rightarrow> session \<Rightarrow> session" where
  "sendParsed sq r s = (if 0 < sq then s else sendResponse r s)"

text \<open>The buffers in the engine's memory that an activation holds, and all of them.\<close>

fun buffers_of :: "pc \<Rightarrow> nat list" where
  "buffers_of (Allocated rx) = [rx]"
| "buffers_of (Written rx) = [rx]"
| "buffers_of (Calling rx) = [rx]"
| "buffers_of (Returned rx tx str) = [rx, tx]"
| "buffers_of (FreedRx tx) = [tx]"
| "buffers_of (Failed bufs) = bufs"
| "buffers_of _ = []"

definition live_buffers :: "session \<Rightarrow> nat list" where
  "live_buffers s = concat (map (\<lambda>a. buffers_of (pc a)) (runs s))"

subsection \<open>The engine bridge\<close>

text \<open>
  A call of \<open>lldbRun\<close> runs to its first \<open>await\<close>: with the flag set it goes to sleep
  in the loop; otherwise it sets the flag and calls \<open>_malloc\<close>.
  \<^verbatim>\<open>
  while (this._isRunningLldb) {
      await this._sleep(10);
  }
  this._isRunningLldb = true;
  let rxPtr = await this._runtime.lldb._malloc(request.length+1);
  \<close>
\<close>

definition lldbRun :: "string \<Rightarrow> string \<Rightarrow> session \<Rightarrow> session" where
  "lldbRun fn req s =
     s\<lparr>runs := runs s @ [\<lparr>funcName = fn, request = req,
                            pc = (if isRunningLldb s then Sleeping else Acquired)\<rparr>],
       isRunningLldb := True\<rparr>"

text \<open>
  What \<open>lldbRun\<close> does to the parsed response before it sends it: for
  \<open>request_stackTrace\<close> it reads \<open>body.totalFrames\<close>, a TypeError when the response has
  no body, and rewrites the frames; a body without that property counts 0 frames and stays
  as it is.
\<close>

definition rewriteResponse :: "string \<Rightarrow> response \<Rightarrow> error + response" where
  "rewriteResponse fn r =
     (if fn = ''request_stackTrace''
      then case body r of
             NoBody \<Rightarrow> Inl TypeError
           | StackTraceBody b \<Rightarrow>
               (case adjustStackTrace b of
                  Inl e \<Rightarrow> Inl e
                | Inr b' \<Rightarrow> Inr (r\<lparr>body := StackTraceBody b'\<rparr>))
           | _ \<Rightarrow> Inr r
      else Inr r)"

text \<open>
  The steps of the session that concern the bridge. Between two \<open>await\<close>s an activation
  runs alone (JavaScript runs one task at a time), so each step is one such stretch of one
  activation, or a call of \<open>lldbRun\<close> by a request handler. What the engine returns is part
  of the step's label. The call of \<open>_malloc\<close>, which the code makes in the same stretch as
  the setting of the flag, is a step of its own here, and the timer of a sleeping activation
  may fire at any moment (\<open>Wake\<close>), not only every 10 ms: the model has every
  interleaving of the code, and some more.
  \<^verbatim>\<open>
  let numBytesWritten = await this._runtime.lldb.stringToUTF8(request, rxPtr, request.length+1);
  const txPtr = await this._runtime.lldb.ccall(funcName, 'number', ['number'], [rxPtr], {async: true});
  const responseStr = await this._runtime.lldb.UTF8ToString(txPtr);
  let responseJSON = JSON.parse(responseStr);
  if (funcName === 'request_stackTrace') { ... }
  this.sendResponse(responseJSON);
  await this._runtime.lldb._free(rxPtr);
  await this._runtime.lldb._free(txPtr);
  this._isRunningLldb = false;
  \<close>
\<close>

datatype label =
    Issue string string
  | Wake nat
  | Malloc nat nat
  | WriteRequest nat
  | Invoke nat
  | EngineReturn nat nat string
  | EngineReject nat
  | Respond nat
  | FreeTx nat
  | Release nat

definition set_pc :: "nat \<Rightarrow> pc \<Rightarrow> session \<Rightarrow> session" where
  "set_pc i p s = s\<lparr>runs := (runs s)[i := (runs s ! i)\<lparr>pc := p\<rparr>]\<rparr>"

text \<open>
  \<open>JSON.parse\<close> is a parameter: the response it reads from the text, with its
  \<open>seq\<close>, or none when it throws. A label that names no activation, or one that is not
  at the matching \<open>await\<close>, is not a step.
\<close>

type_synonym parser = "string \<Rightarrow> (int \<times> response) option"

fun step :: "parser \<Rightarrow> label \<Rightarrow> session \<Rightarrow> session option" where
  "step parse (Issue fn req) s = Some (lldbRun fn req s)"
| "step parse (Wake i) s =
     (if i < length (runs s) \<and> pc (runs s ! i) = Sleeping
      then Some (if isRunningLldb s then s else set_pc i Acquired (s\<lparr>isRunningLldb := True\<rparr>))
      else None)"
| "step parse (Malloc i rx) s =
     (if i < length (runs s) \<and> pc (runs s ! i) = Acquired
      then Some (set_pc i (Allocated rx) s) else None)"
| "step parse (WriteRequest i) s =
     (if i < length (runs s)
      then case pc (runs s ! i) of
             Allocated rx \<Rightarrow> Some (set_pc i (Written rx) s)
           | _ \<Rightarrow> None
      else None)"
| "step parse (Invoke i) s =
     (if i < length (runs s)
      then case pc (runs s ! i) of
             Written rx \<Rightarrow> Some (set_pc i (Calling rx) s)
           | _ \<Rightarrow> None
      else None)"
| "step parse (EngineReturn i tx str) s =
     (if i < length (runs s)
      then case pc (runs s ! i) of
             Calling rx \<Rightarrow> Some (set_pc i (Returned rx tx str) s)
           | _ \<Rightarrow> None
      else None)"
| "step parse (EngineReject i) s =
     (if i < length (runs s)
      then case pc (runs s ! i) of
             Calling rx \<Rightarrow> Some (set_pc i (Failed [rx]) s)
           | _ \<Rightarrow> None
      else None)"
| "step parse (Respond i) s =
     (if i < length (runs s)
      then case pc (runs s ! i) of
             Returned rx tx str \<Rightarrow>
               (case parse str of
                  None \<Rightarrow> Some (set_pc i (Failed [rx, tx]) s)
                | Some (sq, r) \<Rightarrow>
                    (case rewriteResponse (funcName (runs s ! i)) r of
                       Inl e \<Rightarrow> Some (set_pc i (Failed [rx, tx]) s)
                     | Inr r' \<Rightarrow> Some (set_pc i (FreedRx tx) (sendParsed sq r' s))))
           | _ \<Rightarrow> None
      else None)"
| "step parse (FreeTx i) s =
     (if i < length (runs s)
      then case pc (runs s ! i) of
             FreedRx tx \<Rightarrow> Some (set_pc i FreedTx s)
           | _ \<Rightarrow> None
      else None)"
| "step parse (Release i) s =
     (if i < length (runs s) \<and> pc (runs s ! i) = FreedTx
      then Some (set_pc i Finished (s\<lparr>isRunningLldb := False\<rparr>))
      else None)"

text \<open>A run of the session: the steps of a list of labels, one after the other.\<close>

fun exec :: "parser \<Rightarrow> label list \<Rightarrow> session \<Rightarrow> session option" where
  "exec parse [] s = Some s"
| "exec parse (l # ls) s =
     (case step parse l s of None \<Rightarrow> None | Some s' \<Rightarrow> exec parse ls s')"

text \<open>An activation holds the bridge from the setting of the flag until it clears it.\<close>

fun holds_bridge :: "pc \<Rightarrow> bool" where
  "holds_bridge Sleeping = False"
| "holds_bridge Finished = False"
| "holds_bridge _ = True"

subsection \<open>Notions for the single-flight property\<close>

text \<open>
  The number of activations that hold the bridge, and the invariant of the flag: it is set
  exactly when one activation holds the bridge, and never more than one does.
\<close>

definition holders :: "session \<Rightarrow> nat" where
  "holders s = length (filter holds_bridge (map pc (runs s)))"

definition bridge_inv :: "session \<Rightarrow> bool" where
  "bridge_inv s \<longleftrightarrow> holders s = (if isRunningLldb s then 1 else 0)"

text \<open>The response of an activation has been read from the engine's memory.\<close>

fun observed :: "pc \<Rightarrow> bool" where
  "observed (Returned rx tx str) = True"
| "observed (FreedRx tx) = True"
| "observed FreedTx = True"
| "observed Finished = True"
| "observed _ = False"

text \<open>
  Activation \<open>j\<close> waits behind activation \<open>i\<close>: \<open>i\<close> has left the loop, and \<open>j\<close>
  sleeps in it unless \<open>i\<close> has finished.
\<close>

definition behind :: "nat \<Rightarrow> nat \<Rightarrow> session \<Rightarrow> bool" where
  "behind i j s \<longleftrightarrow>
     i < length (runs s) \<and> j < length (runs s) \<and> pc (runs s ! i) \<noteq> Sleeping
     \<and> (pc (runs s ! j) = Sleeping \<or> pc (runs s ! i) = Finished)"

subsection \<open>Request handlers\<close>

text \<open>
  The handlers that go through the bridge serialise the request they were given;
  \<open>JSON.stringify\<close> is a parameter. \<open>setBreakPointsRequest\<close> first replaces the source
  path in the request by the engine path.
\<close>

record setBreakpointsRequest =
  sb_seq :: int
  sb_source_path :: "string option"
  sb_lines :: "int list"

definition setBreakPointsRequest ::
  "(setBreakpointsRequest \<Rightarrow> string) \<Rightarrow> setBreakpointsRequest \<Rightarrow> session \<Rightarrow> session" where
  "setBreakPointsRequest stringify rq s =
     lldbRun ''request_setBreakpoints''
       (stringify (rq\<lparr>sb_source_path := Some (toEnginePath (sb_source_path rq))\<rparr>)) s"

definition stackTraceRequest :: "('q \<Rightarrow> string) \<Rightarrow> 'q \<Rightarrow> session \<Rightarrow> session" where
  "stackTraceRequest stringify rq s = lldbRun ''request_stackTrace'' (stringify rq) s"

text \<open>
  \<^verbatim>\<open>
  if (args.filter === "named") {
      response.success = false;
      this.sendResponse(response);
      return;
  }
  await this.lldbRun('request_variables', JSON.stringify(request));
  \<close>
\<close>

record variablesArguments =
  variablesReference :: int
  arg_filter :: "string option"

definition variablesRequest ::
  "('q \<Rightarrow> string) \<Rightarrow> response \<Rightarrow> variablesArguments \<Rightarrow> 'q \<Rightarrow> session \<Rightarrow> session" where
  "variablesRequest stringify resp args rq s =
     (if arg_filter args = Some ''named''
      then sendResponse (resp\<lparr>success := False\<rparr>) s
      else lldbRun ''request_variables'' (stringify rq) s)"

text \<open>
  \<^verbatim>\<open>
  protected async readMemoryRequest(response, { offset = 0, count }) {
      response.body = {
          address: '0',
          data: this._runtime.memory.slice(offset, count).toString('base64'),
          unreadableBytes: this._runtime.memory.length - (offset + count)
      };
      this.sendResponse(response);
  }
  \<close>
\<close>

definition offsetOr0 :: "int option \<Rightarrow> int" where
  "offsetOr0 offset = (case offset of None \<Rightarrow> 0 | Some v \<Rightarrow> v)"

definition readMemoryRequest :: "response \<Rightarrow> int option \<Rightarrow> int \<Rightarrow> session \<Rightarrow> session" where
  "readMemoryRequest resp offset cnt s =
     (let off = offsetOr0 offset;
          mem = memory (the_runtime s)
      in sendResponse
           (resp\<lparr>body := ReadMemoryBody ''0'' (base64 (buffer_slice mem off cnt))
                              (js_sub (int (length mem)) (js_add off cnt))\<rparr>) s)"

text \<open>
  \<^verbatim>\<open>
  protected async continueRequest(response, args) {
      await this._runtime.continue();
      this.sendResponse(response);
  }
  \<close>
  The handler does not read the flag of the bridge. When the engine rejects, the handler
  ends there and sends nothing.
\<close>

definition continueRequest :: "engine \<Rightarrow> response \<Rightarrow> session \<Rightarrow> session" where
  "continueRequest ccall resp s =
     (case continue_runtime ccall (the_runtime s) of
        (Inl e, r) \<Rightarrow> s\<lparr>the_runtime := r\<rparr>
      | (Inr u, r) \<Rightarrow> sendResponse resp (s\<lparr>the_runtime := r\<rparr>))"

section \<open>Facts about splitting\<close>

lemma includes_js_sublist: "includes_js s sub \<longleftrightarrow> sublist sub s"
  by (induction s) (auto simp: sublist_Cons_right)

lemma includes_js_appendI: "includes_js s sub \<Longrightarrow> includes_js (u @ s @ v) sub"
  by (auto simp: includes_js_sublist sublist_def) (metis append.assoc)

lemma prefix_shorter: "prefix p (u @ v) \<Longrightarrow> length p \<le> length u \<Longrightarrow> prefix p u"
  by (metis prefix_length_prefix prefixI)

text \<open>
  When \<open>sep\<close> does not occur in \<open>a\<close> followed by all but the last character of
  \<open>sep\<close>, the occurrence at the end of \<open>a\<close> is the leftmost one.
\<close>

lemma find_sep_first:
  assumes "sep \<noteq> []" and "\<not> includes_js (a @ butlast sep) sep"
  shows "find_sep sep (a @ sep @ b) = Some (a, b)"
  using assms
proof (induction a)
  case Nil
  then obtain c cs where "sep @ b = c # cs" by (cases sep) auto
  then show ?case
    using Nil by (metis append_Nil append_eq_conv_conj find_sep.simps(2) prefixI)
next
  case (Cons x a)
  have np: "\<not> prefix sep (x # a @ sep @ b)"
  proof
    assume "prefix sep (x # a @ sep @ b)"
    moreover have "sep @ b = butlast sep @ [last sep] @ b"
      using Cons.prems(1) by (metis append.assoc append_butlast_last_id)
    ultimately have "prefix sep (((x # a) @ butlast sep) @ ([last sep] @ b))"
      by simp
    then have "prefix sep ((x # a) @ butlast sep)"
      by (rule prefix_shorter) (use Cons.prems(1) in \<open>cases sep, auto\<close>)
    with Cons.prems(2) show False by simp
  qed
  from Cons.prems have "\<not> includes_js (a @ butlast sep) sep" by simp
  with Cons.IH Cons.prems(1) have "find_sep sep (a @ sep @ b) = Some (a, b)" by simp
  with np show ?case by simp
qed

lemma find_sep_None: "sep \<noteq> [] \<Longrightarrow> \<not> includes_js s sep \<Longrightarrow> find_sep sep s = None"
  by (induction s) auto

lemma split_js_first:
  "sep \<noteq> [] \<Longrightarrow> \<not> includes_js (a @ butlast sep) sep \<Longrightarrow>
   split_js sep (a @ sep @ b) = a # split_js sep b"
  by (subst split_js.simps) (simp add: find_sep_first)

lemma split_js_none: "sep \<noteq> [] \<Longrightarrow> \<not> includes_js s sep \<Longrightarrow> split_js sep s = [s]"
  by (subst split_js.simps) (simp add: find_sep_None)


section \<open>The SDK rule of the path translation\<close>

text \<open>
  An editor path in which \<open>code/\<close> occurs once, followed by a root-relative part in
  which \<open>sdk/program/\<close> occurs once: the session sends \<open>home/home/\<close> and what follows
  \<open>sdk/program/\<close>.
\<close>

lemma toEnginePath_sdk_unique:
  assumes c1: "\<not> includes_js (pre @ ''code'') ''code/''"
      and c2: "\<not> includes_js (a @ ''sdk/program/'' @ r) ''code/''"
      and m1: "\<not> includes_js (a @ ''sdk/program'') ''sdk/program/''"
      and m2: "\<not> includes_js r ''sdk/program/''"
  shows "toEnginePath (Some (pre @ ''code/'' @ a @ ''sdk/program/'' @ r)) = ''home/home/'' @ r"
proof -
  let ?R = "a @ ''sdk/program/'' @ r"
  have "split_js ''code/'' (pre @ ''code/'' @ ?R) = pre # split_js ''code/'' ?R"
    using c1 by (intro split_js_first) simp_all
  also have "split_js ''code/'' ?R = [?R]"
    using c2 by (intro split_js_none) simp_all
  finally have R: "nth_opt (split_js ''code/'' (pre @ ''code/'' @ ?R)) 1 = Some ?R"
    by simp
  have "includes_js ''sdk/program/'' ''sdk''" by simp
  then have sdk: "includes_js ?R ''sdk''"
    by (rule includes_js_appendI)
  have "split_js ''sdk/program/'' ?R = a # split_js ''sdk/program/'' r"
    using m1 by (intro split_js_first) simp_all
  also have "split_js ''sdk/program/'' r = [r]"
    using m2 by (intro split_js_none) simp_all
  finally have r: "nth_opt (split_js ''sdk/program/'' ?R) 1 = Some r"
    by simp
  show ?thesis
    unfolding toEnginePath_def using R sdk r by (simp add: js_str_def)
qed

text \<open>
  An engine path in which \<open>home/home/\<close> occurs once, after some text \<open>a\<close>: the
  reverse rule puts the SDK prefix before what follows \<open>home/home/\<close>.
\<close>

lemma toEditorPath_sdk_first:
  assumes "\<not> includes_js (a @ ''home/home'') ''home/home/''"
      and "\<not> includes_js r ''home/home/''"
  shows "toEditorPath (Some (a @ ''home/home/'' @ r)) = solSdkPath @ r"
proof -
  have "includes_js ''home/home/'' ''home/home/''" by simp
  then have inc: "includes_js (a @ ''home/home/'' @ r) ''home/home/''"
    by (rule includes_js_appendI)
  have "split_js ''home/home/'' (a @ ''home/home/'' @ r) = a # split_js ''home/home/'' r"
    using assms(1) by (intro split_js_first) simp_all
  also have "split_js ''home/home/'' r = [r]"
    using assms(2) by (intro split_js_none) simp_all
  finally have "nth_opt (split_js ''home/home/'' (a @ ''home/home/'' @ r)) 1 = Some r"
    by simp
  with inc show ?thesis
    unfolding toEditorPath_def by (simp add: js_str_def)
qed

text \<open>
  Claim C3, as amended. For every editor path \<open>pre @ ''code/'' @ a @ ''sdk/program/'' @ r\<close>
  in which this \<open>code/\<close> is the only one and this \<open>sdk/program/\<close> is the only one of
  the root-relative part \<open>a @ ''sdk/program/'' @ r\<close>, the forward translation of the session's
  \<open>setBreakPointsRequest\<close> produces exactly \<open>home/home/\<close> followed by \<open>r\<close>, the text
  after \<open>sdk/program/\<close>.
\<close>

theorem toEnginePath_sdk:
  assumes "\<not> includes_js (pre @ ''code'') ''code/''"
      and "\<not> includes_js (a @ ''sdk/program/'' @ r) ''code/''"
      and "\<not> includes_js (a @ ''sdk/program'') ''sdk/program/''"
      and "\<not> includes_js r ''sdk/program/''"
  shows "toEnginePath (Some (pre @ ''code/'' @ a @ ''sdk/program/'' @ r)) = ''home/home/'' @ r"
  using assms by (rule toEnginePath_sdk_unique)

theorem toEnginePath_sdk_witness:
  "\<not> includes_js (''/home/wj/temp/test_theia/debug-test/'' @ ''code'') ''code/''
   \<and> \<not> includes_js ([] @ ''sdk/program/'' @ ''src/entrypoint.rs'') ''code/''
   \<and> \<not> includes_js ([] @ ''sdk/program'') ''sdk/program/''
   \<and> \<not> includes_js ''src/entrypoint.rs'' ''sdk/program/''
   \<and> toEnginePath
        (Some ''/home/wj/temp/test_theia/debug-test/code/sdk/program/src/entrypoint.rs'')
       = ''home/home/src/entrypoint.rs''"
  using toEnginePath_sdk [of "''/home/wj/temp/test_theia/debug-test/''" "[]" "''src/entrypoint.rs''"]
  by simp

text \<open>
  The claim as stated fails. The root-relative part \<open>sdk/src/lib.rs\<close> contains \<open>sdk\<close>
  but not \<open>sdk/program/\<close>: element 1 of the split is \<open>undefined\<close>, and the session sends
  \<open>home/home/undefined\<close>, whose tail is no part of the path. Where \<open>sdk/program/\<close> occurs
  twice the session sends only the text between the two occurrences, neither the text after
  the first nor the text after the last. Where \<open>code/\<close> occurs again, the root-relative
  part ends there, and so does what the session sends.
\<close>

theorem toEnginePath_sdk_counterexample:
  "includes_js ''sdk/src/lib.rs'' ''sdk''
   \<and> toEnginePath (Some ''/w/code/sdk/src/lib.rs'') = ''home/home/undefined''
   \<and> \<not> includes_js ''/w/code/sdk/src/lib.rs'' ''undefined''
   \<and> toEnginePath (Some ''/w/code/sdk/program/a/sdk/program/b.rs'') = ''home/home/a/''
   \<and> ''home/home/a/'' \<noteq> ''home/home/'' @ ''a/sdk/program/b.rs''
   \<and> ''home/home/a/'' \<noteq> ''home/home/'' @ ''b.rs''
   \<and> toEnginePath (Some ''/w/code/sdk/program/src/code/x.rs'') = ''home/home/src/''
   \<and> ''home/home/src/'' \<noteq> ''home/home/'' @ ''src/code/x.rs''"
  by code_simp

text \<open>
  The runtime's copy of the rule concatenates the array returned by \<open>split\<close> instead of its
  element 1, so a comma stands where \<open>sdk/program/\<close> stood.
\<close>

lemma toEnginePath_runtime_sdk_example:
  "toEnginePath_runtime ''/home/wj/temp/test_theia/debug-test/code/sdk/program/src/entrypoint.rs''
     = Inr ''home/home/,src/entrypoint.rs''"
  by code_simp

text \<open>
  Claim C1, as amended. For every editor path \<open>pre @ ''code/'' @ a @ ''sdk/program/'' @ r\<close>
  in which this \<open>code/\<close> is the only one, this \<open>sdk/program/\<close> is the only one of the
  root-relative part, and the remainder \<open>r\<close> does not contain \<open>home/home/\<close>, the forward
  translation followed by the reverse translation yields the SDK prefix followed by \<open>r\<close>.
\<close>

theorem roundtrip_sdk:
  assumes "\<not> includes_js (pre @ ''code'') ''code/''"
      and "\<not> includes_js (a @ ''sdk/program/'' @ r) ''code/''"
      and "\<not> includes_js (a @ ''sdk/program'') ''sdk/program/''"
      and "\<not> includes_js r ''sdk/program/''"
      and "\<not> includes_js r ''home/home/''"
  shows "toEditorPath (Some (toEnginePath (Some (pre @ ''code/'' @ a @ ''sdk/program/'' @ r))))
           = solSdkPath @ r"
proof -
  from assms(1-4)
  have "toEnginePath (Some (pre @ ''code/'' @ a @ ''sdk/program/'' @ r)) = ''home/home/'' @ r"
    by (rule toEnginePath_sdk_unique)
  moreover from assms(5) have "toEditorPath (Some ([] @ ''home/home/'' @ r)) = solSdkPath @ r"
    by (intro toEditorPath_sdk_first) simp_all
  ultimately show ?thesis by simp
qed

theorem roundtrip_sdk_witness:
  "\<not> includes_js (''/home/wj/temp/test_theia/debug-test/'' @ ''code'') ''code/''
   \<and> \<not> includes_js ([] @ ''sdk/program/'' @ ''src/entrypoint.rs'') ''code/''
   \<and> \<not> includes_js ([] @ ''sdk/program'') ''sdk/program/''
   \<and> \<not> includes_js ''src/entrypoint.rs'' ''sdk/program/''
   \<and> \<not> includes_js ''src/entrypoint.rs'' ''home/home/''
   \<and> toEditorPath (Some (toEnginePath
        (Some ''/home/wj/temp/test_theia/debug-test/code/sdk/program/src/entrypoint.rs'')))
       = ''/home/wj/temp/test_theia/debug-test/code/sdk/program/src/entrypoint.rs''"
  using roundtrip_sdk [of "''/home/wj/temp/test_theia/debug-test/''" "[]" "''src/entrypoint.rs''"]
  by (simp add: solSdkPath_def)

text \<open>
  The claim as stated fails. Under \<open>sdk/program/\<close> the remainder \<open>home/home/x.rs\<close>
  contains the engine's own marker: the forward result is \<open>home/home/home/home/x.rs\<close>, the
  reverse rule keeps what stands between the first two markers, which is empty, and the round
  trip yields the bare SDK prefix. A path with \<open>sdk\<close> but without \<open>sdk/program/\<close> comes
  back as the SDK prefix followed by \<open>undefined\<close>, and a path with a second
  \<open>sdk/program/\<close> or a second \<open>code/\<close> comes back cut there.
\<close>

theorem roundtrip_sdk_counterexample:
  "toEnginePath (Some ''/w/code/sdk/program/home/home/x.rs'') = ''home/home/home/home/x.rs''
   \<and> toEditorPath (Some (toEnginePath (Some ''/w/code/sdk/program/home/home/x.rs'')))
       = solSdkPath
   \<and> toEditorPath (Some (toEnginePath (Some ''/w/code/sdk/program/home/home/x.rs'')))
       \<noteq> solSdkPath @ ''home/home/x.rs''
   \<and> toEditorPath (Some (toEnginePath (Some ''/w/code/sdk/src/lib.rs'')))
       = solSdkPath @ ''undefined''
   \<and> toEditorPath (Some (toEnginePath (Some ''/w/code/sdk/program/a/sdk/program/b.rs'')))
       = solSdkPath @ ''a/''
   \<and> toEditorPath (Some (toEnginePath (Some ''/w/code/sdk/program/src/code/x.rs'')))
       = solSdkPath @ ''src/''"
  by code_simp


section \<open>Facts about the stack-trace rewriting\<close>

lemma adjustLoop_result:
  assumes "adjustLoop bound i fs = Inr fs'"
  shows "length fs' = length fs
       \<and> (\<forall>k. i \<le> k \<and> int k < bound \<longrightarrow> k < length fs \<and> adjustFrame (fs ! k) = Inr (fs' ! k))
       \<and> (\<forall>k. \<not> (i \<le> k \<and> int k < bound) \<longrightarrow> fs' ! k = fs ! k)"
  using assms
proof (induction bound i fs rule: adjustLoop.induct)
  case (1 bound i fs)
  show ?case
  proof (cases "int i < bound")
    case False
    with "1.prems" have "fs' = fs" by (simp add: adjustLoop.simps)
    with False show ?thesis by auto
  next
    case True
    with "1.prems" have len: "i < length fs"
      by (simp add: adjustLoop.simps split: if_splits)
    with True "1.prems" obtain f where f: "adjustFrame (fs ! i) = Inr f"
      and rest: "adjustLoop bound (Suc i) (fs[i := f]) = Inr fs'"
      by (subst (asm) adjustLoop.simps) (auto split: sum.splits)
    from "1.IH" [OF True len f rest]
    have IH: "length fs' = length (fs[i := f])"
      "\<And>k. Suc i \<le> k \<Longrightarrow> int k < bound \<Longrightarrow> k < length (fs[i := f]) \<and> adjustFrame (fs[i := f] ! k) = Inr (fs' ! k)"
      "\<And>k. \<not> (Suc i \<le> k \<and> int k < bound) \<Longrightarrow> fs' ! k = fs[i := f] ! k"
      by blast+
    have "fs' ! i = f" using IH(3) [of i] len by simp
    show ?thesis
    proof (intro conjI allI impI)
      show "length fs' = length fs" using IH(1) by simp
    next
      fix k assume k: "i \<le> k \<and> int k < bound"
      show "k < length fs"
      proof (cases "k = i")
        case True with len show ?thesis by simp
      next
        case False with k IH(2) [of k] show ?thesis by simp
      qed
    next
      fix k assume k: "i \<le> k \<and> int k < bound"
      show "adjustFrame (fs ! k) = Inr (fs' ! k)"
      proof (cases "k = i")
        case True with f \<open>fs' ! i = f\<close> show ?thesis by simp
      next
        case False with k IH(2) [of k] show ?thesis by simp
      qed
    next
      fix k assume k: "\<not> (i \<le> k \<and> int k < bound)"
      then have "\<not> (Suc i \<le> k \<and> int k < bound)" by auto
      then have "fs' ! k = fs[i := f] ! k" by (rule IH(3))
      moreover from k True have "k \<noteq> i" by auto
      ultimately show "fs' ! k = fs ! k" by simp
    qed
  qed
qed

lemma adjustStackTrace_frame:
  assumes "adjustStackTrace b = Inr b'" and "totalFrames b = Some t" and "int i < t"
  shows "i < length (stackFrames b) \<and> adjustFrame (stackFrames b ! i) = Inr (stackFrames b' ! i)"
proof -
  from assms(1,2) obtain fs where fs: "adjustLoop t 0 (stackFrames b) = Inr fs"
    and b': "b' = b\<lparr>stackFrames := fs\<rparr>"
    by (auto simp: adjustStackTrace_def split: sum.splits)
  from adjustLoop_result [OF fs] assms(3) b' show ?thesis by simp
qed


text \<open>
  Claim C4, as amended. When the rewriting of a stack-trace response completes, every frame
  at an index below the response's \<open>totalFrames\<close> whose source carries no source
  reference and whose source path is \<open>a @ ''home/home/'' @ r\<close>, with this
  \<open>home/home/\<close> the only one, has its path rewritten to the SDK prefix followed by
  \<open>r\<close>, and nothing else of the frame changes. In particular the path
  \<open>home/home/sdk/program/src/entrypoint.rs\<close> is rewritten to the SDK prefix followed by
  \<open>sdk/program/src/entrypoint.rs\<close> (the witness).
\<close>

theorem stackTrace_sdk_rewrite:
  assumes "adjustStackTrace b = Inr b'" and "totalFrames b = Some t" and "int i < t"
      and "frame_source (stackFrames b ! i) = Some src" and "sourceReference src = None"
      and "src_path src = Some (a @ ''home/home/'' @ r)"
      and "\<not> includes_js (a @ ''home/home'') ''home/home/''"
      and "\<not> includes_js r ''home/home/''"
  shows "stackFrames b' ! i
           = (stackFrames b ! i)\<lparr>frame_source := Some (src\<lparr>src_path := Some (solSdkPath @ r)\<rparr>)\<rparr>"
proof -
  from assms(1-3) have "adjustFrame (stackFrames b ! i) = Inr (stackFrames b' ! i)"
    by (simp add: adjustStackTrace_frame)
  moreover have "toEditorPath (src_path src) = solSdkPath @ r"
    unfolding assms(6) using assms(7,8) by (rule toEditorPath_sdk_first)
  ultimately show ?thesis
    using assms(4,5) by (simp add: adjustFrame_def)
qed

theorem stackTrace_sdk_rewrite_witness:
  "adjustStackTrace
     \<lparr>stackFrames =
        [\<lparr>frame_id = 0, frame_name = ''process_instruction'',
          frame_source = Some \<lparr>src_name = Some ''entrypoint.rs'',
                               src_path = Some ''home/home/sdk/program/src/entrypoint.rs'',
                               sourceReference = None\<rparr>,
          frame_line = 10, frame_column = 1\<rparr>],
      totalFrames = Some 1\<rparr>
   = Inr
     \<lparr>stackFrames =
        [\<lparr>frame_id = 0, frame_name = ''process_instruction'',
          frame_source = Some \<lparr>src_name = Some ''entrypoint.rs'',
                               src_path = Some (solSdkPath @ ''sdk/program/src/entrypoint.rs''),
                               sourceReference = None\<rparr>,
          frame_line = 10, frame_column = 1\<rparr>],
      totalFrames = Some 1\<rparr>
   \<and> \<not> includes_js ([] @ ''home/home'') ''home/home/''
   \<and> \<not> includes_js ''sdk/program/src/entrypoint.rs'' ''home/home/''"
proof -
  let ?src = "\<lparr>src_name = Some ''entrypoint.rs'',
               src_path = Some ''home/home/sdk/program/src/entrypoint.rs'',
               sourceReference = None\<rparr>"
  let ?f = "\<lparr>frame_id = 0, frame_name = ''process_instruction'', frame_source = Some ?src,
             frame_line = 10, frame_column = 1\<rparr>"
  let ?b = "\<lparr>stackFrames = [?f], totalFrames = Some 1\<rparr>"
  obtain b' where b': "adjustStackTrace ?b = Inr b'"
    by (simp add: adjustStackTrace_def adjustLoop.simps adjustFrame_def)
  have n1: "\<not> includes_js ([] @ ''home/home'') ''home/home/''" by simp
  have n2: "\<not> includes_js ''sdk/program/src/entrypoint.rs'' ''home/home/''" by simp
  have "stackFrames b' ! 0
          = (stackFrames ?b ! 0)\<lparr>frame_source :=
               Some (?src\<lparr>src_path := Some (solSdkPath @ ''sdk/program/src/entrypoint.rs'')\<rparr>)\<rparr>"
    by (rule stackTrace_sdk_rewrite [OF b', where t = 1 and a = "[]"]) (simp_all add: n2)
  moreover from b' have "length (stackFrames b') = 1" "totalFrames b' = Some 1"
    by (auto simp: adjustStackTrace_def adjustLoop.simps adjustFrame_def)
  ultimately have "b' = \<lparr>stackFrames =
        [\<lparr>frame_id = 0, frame_name = ''process_instruction'',
          frame_source = Some \<lparr>src_name = Some ''entrypoint.rs'',
                               src_path = Some (solSdkPath @ ''sdk/program/src/entrypoint.rs''),
                               sourceReference = None\<rparr>,
          frame_line = 10, frame_column = 1\<rparr>],
      totalFrames = Some 1\<rparr>"
    by (cases b') (auto simp: length_Suc_conv)
  with b' n1 n2 show ?thesis by simp
qed


text \<open>
  The claim as stated fails. \<open>totalFrames\<close> is optional in the protocol, and the code
  takes an absent one as 0: no frame is visited and the path stays as the engine sent it.
  And a path with two \<open>home/home/\<close> keeps only the text between them, neither the text
  after the first nor the text after the last. A frame without a source, anywhere below
  \<open>totalFrames\<close>, makes the whole rewriting throw, and no response is sent.
\<close>

theorem stackTrace_sdk_rewrite_counterexample:
  "adjustStackTrace
     \<lparr>stackFrames =
        [\<lparr>frame_id = 0, frame_name = ''process_instruction'',
          frame_source = Some \<lparr>src_name = Some ''entrypoint.rs'',
                               src_path = Some ''home/home/sdk/program/src/entrypoint.rs'',
                               sourceReference = None\<rparr>,
          frame_line = 10, frame_column = 1\<rparr>],
      totalFrames = None\<rparr>
   = Inr
     \<lparr>stackFrames =
        [\<lparr>frame_id = 0, frame_name = ''process_instruction'',
          frame_source = Some \<lparr>src_name = Some ''entrypoint.rs'',
                               src_path = Some ''home/home/sdk/program/src/entrypoint.rs'',
                               sourceReference = None\<rparr>,
          frame_line = 10, frame_column = 1\<rparr>],
      totalFrames = None\<rparr>
   \<and> ''home/home/sdk/program/src/entrypoint.rs'' \<noteq> solSdkPath @ ''sdk/program/src/entrypoint.rs''
   \<and> toEditorPath (Some ''home/home/a/home/home/b.rs'') = solSdkPath @ ''a/''
   \<and> solSdkPath @ ''a/'' \<noteq> solSdkPath @ ''a/home/home/b.rs''
   \<and> solSdkPath @ ''a/'' \<noteq> solSdkPath @ ''b.rs''
   \<and> adjustStackTrace
        \<lparr>stackFrames =
           [\<lparr>frame_id = 0, frame_name = ''process_instruction'',
             frame_source = Some \<lparr>src_name = Some ''entrypoint.rs'',
                                  src_path = Some ''home/home/sdk/program/src/entrypoint.rs'',
                                  sourceReference = None\<rparr>,
             frame_line = 10, frame_column = 1\<rparr>,
            \<lparr>frame_id = 1, frame_name = ''entrypoint'', frame_source = None,
             frame_line = 0, frame_column = 0\<rparr>],
         totalFrames = Some 2\<rparr>
       = Inl TypeError"
  by code_simp

text \<open>
  Claim C9, as amended. When the rewriting of a stack-trace response completes, every frame
  at an index below the response's \<open>totalFrames\<close> whose source carries a source
  reference keeps its source path, and the name of its source is set to the frame's own name;
  nothing else of the frame changes.
\<close>

theorem stackTrace_sourceReference:
  assumes "adjustStackTrace b = Inr b'" and "totalFrames b = Some t" and "int i < t"
      and "frame_source (stackFrames b ! i) = Some src" and "sourceReference src = Some ref"
  shows "stackFrames b' ! i
           = (stackFrames b ! i)\<lparr>frame_source :=
                Some (src\<lparr>src_name := Some (frame_name (stackFrames b ! i))\<rparr>)\<rparr>
         \<and> map_option src_path (frame_source (stackFrames b' ! i)) = Some (src_path src)"
proof -
  from assms(1-3) have "adjustFrame (stackFrames b ! i) = Inr (stackFrames b' ! i)"
    by (simp add: adjustStackTrace_frame)
  with assms(4,5) have eq: "stackFrames b' ! i
           = (stackFrames b ! i)\<lparr>frame_source :=
                Some (src\<lparr>src_name := Some (frame_name (stackFrames b ! i))\<rparr>)\<rparr>"
    by (simp add: adjustFrame_def)
  have "map_option src_path (frame_source (stackFrames b' ! i)) = Some (src_path src)"
    by (subst eq) simp
  with eq show ?thesis by simp
qed

theorem stackTrace_sourceReference_witness:
  "adjustStackTrace
     \<lparr>stackFrames =
        [\<lparr>frame_id = 0, frame_name = ''process_instruction'',
          frame_source = Some \<lparr>src_name = None,
                               src_path = Some ''home/home/src/entrypoint.rs'',
                               sourceReference = Some 1000\<rparr>,
          frame_line = 10, frame_column = 1\<rparr>],
      totalFrames = Some 1\<rparr>
   = Inr
     \<lparr>stackFrames =
        [\<lparr>frame_id = 0, frame_name = ''process_instruction'',
          frame_source = Some \<lparr>src_name = Some ''process_instruction'',
                               src_path = Some ''home/home/src/entrypoint.rs'',
                               sourceReference = Some 1000\<rparr>,
          frame_line = 10, frame_column = 1\<rparr>],
      totalFrames = Some 1\<rparr>"
proof -
  let ?src = "\<lparr>src_name = None, src_path = Some ''home/home/src/entrypoint.rs'',
               sourceReference = Some 1000\<rparr>"
  let ?f = "\<lparr>frame_id = 0, frame_name = ''process_instruction'', frame_source = Some ?src,
             frame_line = 10, frame_column = 1\<rparr>"
  let ?b = "\<lparr>stackFrames = [?f], totalFrames = Some 1\<rparr>"
  obtain b' where b': "adjustStackTrace ?b = Inr b'"
    by (simp add: adjustStackTrace_def adjustLoop.simps adjustFrame_def)
  have "stackFrames b' ! 0
          = (stackFrames ?b ! 0)\<lparr>frame_source :=
               Some (?src\<lparr>src_name := Some (frame_name (stackFrames ?b ! 0))\<rparr>)\<rparr>
        \<and> map_option src_path (frame_source (stackFrames b' ! 0)) = Some (src_path ?src)"
    by (rule stackTrace_sourceReference [OF b', where t = 1 and ref = 1000]) simp_all
  moreover from b' have "length (stackFrames b') = 1" "totalFrames b' = Some 1"
    by (auto simp: adjustStackTrace_def adjustLoop.simps adjustFrame_def)
  ultimately have "b' = \<lparr>stackFrames =
        [\<lparr>frame_id = 0, frame_name = ''process_instruction'',
          frame_source = Some \<lparr>src_name = Some ''process_instruction'',
                               src_path = Some ''home/home/src/entrypoint.rs'',
                               sourceReference = Some 1000\<rparr>,
          frame_line = 10, frame_column = 1\<rparr>],
      totalFrames = Some 1\<rparr>"
    by (cases b') (auto simp: length_Suc_conv)
  with b' show ?thesis by simp
qed

text \<open>
  The claim as stated fails: with \<open>totalFrames\<close> absent the loop visits no frame, and
  the source of a frame with a source reference keeps the name it had (here none).
\<close>

theorem stackTrace_sourceReference_counterexample:
  "adjustStackTrace
     \<lparr>stackFrames =
        [\<lparr>frame_id = 0, frame_name = ''process_instruction'',
          frame_source = Some \<lparr>src_name = None,
                               src_path = Some ''home/home/src/entrypoint.rs'',
                               sourceReference = Some 1000\<rparr>,
          frame_line = 10, frame_column = 1\<rparr>],
      totalFrames = None\<rparr>
   = Inr
     \<lparr>stackFrames =
        [\<lparr>frame_id = 0, frame_name = ''process_instruction'',
          frame_source = Some \<lparr>src_name = None,
                               src_path = Some ''home/home/src/entrypoint.rs'',
                               sourceReference = Some 1000\<rparr>,
          frame_line = 10, frame_column = 1\<rparr>],
      totalFrames = None\<rparr>"
  by code_simp


section \<open>Facts about the runtime\<close>

lemma scanLine_filter:
  "scanLine b i cs =
     map (\<lambda>k. i + k)
       (filter (\<lambda>k. cs ! k \<noteq> CHR '' '' \<and> (if k = 0 then b else cs ! (k - 1) = CHR '' ''))
          [0..<length cs])"
proof (induction cs arbitrary: b i)
  case Nil
  show ?case by simp
next
  case (Cons c cs)
  have upt: "[0..<length (c # cs)] = 0 # map Suc [0..<length cs]"
    by (metis length_Cons map_Suc_upt upt_conv_Cons zero_less_Suc)
  have tail: "filter (\<lambda>k. (c # cs) ! k \<noteq> CHR '' '' \<and>
                   (if k = 0 then b else (c # cs) ! (k - 1) = CHR '' ''))
                (map Suc [0..<length cs])
              = map Suc (filter (\<lambda>k. cs ! k \<noteq> CHR '' '' \<and>
                   (if k = 0 then c = CHR '' '' else cs ! (k - 1) = CHR '' '')) [0..<length cs])"
    unfolding filter_map
    by (rule arg_cong [where f = "map Suc"], rule filter_cong) (auto simp: nth_Cons')
  show ?case
    unfolding upt
    by (simp only: filter.simps tail) (simp add: Cons.IH comp_def)
qed

lemma scanLine_runStart: "scanLine True 0 l = filter (runStart l) [0..<length l]"
proof -
  have "filter (\<lambda>k. l ! k \<noteq> CHR '' '' \<and> (if k = 0 then True else l ! (k - 1) = CHR '' ''))
          [0..<length l] = filter (runStart l) [0..<length l]"
    by (rule filter_cong) (auto simp: runStart_def)
  then show ?thesis by (simp add: scanLine_filter)
qed

text \<open>
  Claim C8. For any line of the source, \<open>getBreakpoints\<close> returns the zero-based
  column offsets of the starts of its runs of non-space characters, in increasing order; for
  the line text \<open>  mov rax, rbx\<close> it returns exactly \<open>[2, 6, 11]\<close> (the witness).
  The line must be an index of the source lines: elsewhere the method throws.
\<close>

theorem getBreakpoints_run_starts:
  assumes "0 \<le> line" and "nat line < length (sourceLines rt)"
  shows "getBreakpoints path line rt
           = Inr (filter (runStart (sourceLines rt ! nat line))
                    [0..<length (sourceLines rt ! nat line)])"
  using assms by (simp add: getBreakpoints_def scanLine_runStart)

theorem getBreakpoints_run_starts_witness:
  "getBreakpoints ''/w/code/a.rs'' 0 (newRuntime\<lparr>sourceLines := [''  mov rax, rbx'']\<rparr>)
     = Inr [2, 6, 11]"
proof -
  let ?rt = "newRuntime\<lparr>sourceLines := [''  mov rax, rbx'']\<rparr>"
  have "getBreakpoints ''/w/code/a.rs'' 0 ?rt
          = Inr (filter (runStart (sourceLines ?rt ! nat 0)) [0..<length (sourceLines ?rt ! nat 0)])"
    by (rule getBreakpoints_run_starts) simp_all
  also have "sourceLines ?rt ! nat 0 = ''  mov rax, rbx''" by simp
  also have "filter (runStart ''  mov rax, rbx'') [0..<length ''  mov rax, rbx''] = [2, 6, 11]"
    by code_simp
  finally show ?thesis .
qed


lemma foldl_sendEvent:
  "foldl (\<lambda>r x. sendEvent (f x) r) rt xs = rt\<lparr>queued := queued rt @ map f xs\<rparr>"
  by (induction xs arbitrary: rt) (simp_all add: sendEvent_def)

lemma verifyBreakpoints_eq:
  "verifyBreakpoints path rt =
     (case breakPoints rt path of
        None \<Rightarrow> rt
      | Some bps \<Rightarrow>
          let bps' = map (\<lambda>bp. bp\<lparr>verified := True\<rparr>) bps
          in rt\<lparr>breakPoints := (breakPoints rt)(path \<mapsto> bps'),
                queued := queued rt @ map BreakpointValidated bps'\<rparr>)"
  by (simp add: verifyBreakpoints_def foldl_sendEvent Let_def split: option.splits)

text \<open>
  Firing the timers moves the queued events, oldest first, to the emitted ones; firing as many
  timers as there are events queued empties the queue.
\<close>

lemma fireTimers_take:
  "n \<le> length (queued rt) \<Longrightarrow>
   fireTimers n rt = rt\<lparr>queued := drop n (queued rt), emitted := emitted rt @ take n (queued rt)\<rparr>"
proof (induction n arbitrary: rt)
  case 0
  then show ?case by simp
next
  case (Suc n)
  then obtain e es where q: "queued rt = e # es" by (cases "queued rt") simp_all
  with Suc.prems have "n \<le> length (queued (fireTimer rt))" by (simp add: fireTimer_def)
  from Suc.IH [OF this] q show ?case by (simp add: fireTimer_def)
qed

lemma fireTimers_all:
  "fireTimers (length (queued rt)) rt = rt\<lparr>queued := [], emitted := emitted rt @ queued rt\<rparr>"
  by (simp add: fireTimers_take)

lemma setBreakPoint_completes:
  assumes "toEnginePath_runtime path = Inr lldbPath"
      and "ccall ''set_breakpoint'' [AStr lldbPath, ANum line]"
  shows "setBreakPoint ccall path line rt
           = (Inr \<lparr>bp_id = breakpointId rt, bp_line = line, verified = True\<rparr>,
              verifyBreakpoints path (snd (addBreakpoint path line rt)))"
    and "bpsOf (verifyBreakpoints path (snd (addBreakpoint path line rt))) path
           = map (\<lambda>b. b\<lparr>verified := True\<rparr>) (bpsOf rt path)
             @ [\<lparr>bp_id = breakpointId rt, bp_line = line, verified = True\<rparr>]"
    and "queued (verifyBreakpoints path (snd (addBreakpoint path line rt)))
           = queued rt @ map BreakpointValidated
               (map (\<lambda>b. b\<lparr>verified := True\<rparr>) (bpsOf rt path)
                @ [\<lparr>bp_id = breakpointId rt, bp_line = line, verified = True\<rparr>])"
    and "breakpointId (verifyBreakpoints path (snd (addBreakpoint path line rt)))
           = breakpointId rt + 1"
    and "emitted (verifyBreakpoints path (snd (addBreakpoint path line rt))) = emitted rt"
proof -
  let ?rt2 = "verifyBreakpoints path (snd (addBreakpoint path line rt))"
  show l: "bpsOf ?rt2 path
           = map (\<lambda>b. b\<lparr>verified := True\<rparr>) (bpsOf rt path)
             @ [\<lparr>bp_id = breakpointId rt, bp_line = line, verified = True\<rparr>]"
    by (simp add: verifyBreakpoints_eq addBreakpoint_def bpsOf_def Let_def)
  show "queued ?rt2 = queued rt @ map BreakpointValidated
               (map (\<lambda>b. b\<lparr>verified := True\<rparr>) (bpsOf rt path)
                @ [\<lparr>bp_id = breakpointId rt, bp_line = line, verified = True\<rparr>])"
    by (simp add: verifyBreakpoints_eq addBreakpoint_def bpsOf_def Let_def)
  show "breakpointId ?rt2 = breakpointId rt + 1"
    by (simp add: verifyBreakpoints_eq addBreakpoint_def bpsOf_def Let_def)
  show "emitted ?rt2 = emitted rt"
    by (simp add: verifyBreakpoints_eq addBreakpoint_def bpsOf_def Let_def)
  have "bpsOf ?rt2 path ! length (bpsOf rt path)
          = \<lparr>bp_id = breakpointId rt, bp_line = line, verified = True\<rparr>"
    by (simp add: l nth_append)
  with assms show "setBreakPoint ccall path line rt
           = (Inr \<lparr>bp_id = breakpointId rt, bp_line = line, verified = True\<rparr>, ?rt2)"
    by (simp add: setBreakPoint_def Let_def split_beta)
qed

lemma setBreakPoint_counter:
  assumes "setBreakPoint ccall path line rt = (res, rt')"
  shows "(case res of Inl e \<Rightarrow> rt' = rt
                    | Inr bp \<Rightarrow> bp_id bp = breakpointId rt \<and> breakpointId rt' = breakpointId rt + 1)"
proof (cases "toEnginePath_runtime path")
  case (Inl e)
  with assms show ?thesis by (auto simp: setBreakPoint_def)
next
  case (Inr lldbPath)
  show ?thesis
  proof (cases "ccall ''set_breakpoint'' [AStr lldbPath, ANum line]")
    case False
    with Inr assms show ?thesis by (auto simp: setBreakPoint_def)
  next
    case True
    from setBreakPoint_completes(1,4) [where ccall = ccall and rt = rt, OF Inr True] assms
    show ?thesis by auto
  qed
qed

lemma clearBreakPoint_counter: "breakpointId (snd (clearBreakPoint path line rt)) = breakpointId rt"
  by (simp add: clearBreakPoint_def split: option.splits)

text \<open>
  Along any history the counter never decreases, and the ids created lie between its first
  and its last value, in strictly increasing order.
\<close>

lemma runCalls_ids:
  "runCalls ccall cs rt = (ids, rt') \<Longrightarrow>
     breakpointId rt \<le> breakpointId rt'
     \<and> (\<forall>i\<in>set ids. breakpointId rt \<le> i \<and> i < breakpointId rt')
     \<and> sorted_wrt (<) ids"
proof (induction cs arbitrary: rt ids rt')
  case Nil
  then show ?case by simp
next
  case (Cons c cs)
  show ?case
  proof (cases c)
    case (SetBP path line)
    obtain res rt1 where s: "setBreakPoint ccall path line rt = (res, rt1)"
      by (cases "setBreakPoint ccall path line rt")
    obtain ids1 rt2 where r: "runCalls ccall cs rt1 = (ids1, rt2)"
      by (cases "runCalls ccall cs rt1")
    note IH = Cons.IH [OF r]
    show ?thesis
    proof (cases res)
      case (Inl e)
      with s setBreakPoint_counter [OF s] have "rt1 = rt" by simp
      moreover from Cons.prems SetBP s Inl r have "ids = ids1" "rt' = rt2" by simp_all
      ultimately show ?thesis using IH by simp
    next
      case (Inr bp)
      with setBreakPoint_counter [OF s]
      have b: "bp_id bp = breakpointId rt" "breakpointId rt1 = breakpointId rt + 1" by simp_all
      from Cons.prems SetBP s Inr r have "ids = bp_id bp # ids1" "rt' = rt2" by simp_all
      with b IH show ?thesis by fastforce
    qed
  next
    case (ClearBP path line)
    with Cons.prems have "runCalls ccall cs (snd (clearBreakPoint path line rt)) = (ids, rt')"
      by simp
    from Cons.IH [OF this] show ?thesis by (simp add: clearBreakPoint_counter)
  next
    case (ClearAll path)
    with Cons.prems have "runCalls ccall cs (clearBreakpoints path rt) = (ids, rt')"
      by simp
    from Cons.IH [OF this] show ?thesis by (simp add: clearBreakpoints_def)
  qed
qed

text \<open>
  Claim C5, as amended. After any history of calls on the breakpoint store, a
  \<open>setBreakPoint\<close> whose path has a \<open>code/\<close> segment (it translates) and whose engine call
  resolves completes, and
  \<^item> the record is created with the next id, unverified, and appended to the file's list;
  \<^item> the breakpoint returned has an id strictly greater than the id of every breakpoint
    created before;
  \<^item> by the time the call returns, the breakpoints of the file, the new one last, are
    verified, and a \<open>breakpointValidated\<close> event is queued on a timer for each of them, the
    new one last;
  \<^item> none of these events has been emitted when the call returns; they are emitted, after what
    was queued before them, once the timers have fired.
\<close>

theorem setBreakPoint_new_id:
  assumes "runCalls ccall calls rt0 = (ids, rt)"
      and "toEnginePath_runtime path = Inr lldbPath"
      and "ccall ''set_breakpoint'' [AStr lldbPath, ANum line]"
  shows "\<exists>bp rt1 rt'.
           addBreakpoint path line rt = (bp\<lparr>verified := False\<rparr>, rt1)
         \<and> breakPoints rt1 path = Some (bpsOf rt path @ [bp\<lparr>verified := False\<rparr>])
         \<and> rt' = verifyBreakpoints path rt1
         \<and> setBreakPoint ccall path line rt = (Inr bp, rt')
         \<and> (\<forall>i\<in>set ids. i < bp_id bp)
         \<and> bp_line bp = line \<and> verified bp
         \<and> bpsOf rt' path = map (\<lambda>b. b\<lparr>verified := True\<rparr>) (bpsOf rt path) @ [bp]
         \<and> queued rt' = queued rt @ map BreakpointValidated (bpsOf rt' path)
         \<and> emitted rt' = emitted rt
         \<and> queued (fireTimers (length (queued rt')) rt') = []
         \<and> emitted (fireTimers (length (queued rt')) rt')
             = emitted rt @ queued rt @ map BreakpointValidated (bpsOf rt' path)"
proof -
  let ?bp = "\<lparr>bp_id = breakpointId rt, bp_line = line, verified = True\<rparr>"
  let ?rt1 = "snd (addBreakpoint path line rt)"
  let ?rt' = "verifyBreakpoints path ?rt1"
  note c = setBreakPoint_completes [where ccall = ccall and rt = rt, OF assms(2,3)]
  have a: "addBreakpoint path line rt = (?bp\<lparr>verified := False\<rparr>, ?rt1)"
    by (simp add: addBreakpoint_def Let_def)
  have b: "breakPoints ?rt1 path = Some (bpsOf rt path @ [?bp\<lparr>verified := False\<rparr>])"
    by (simp add: addBreakpoint_def Let_def)
  from runCalls_ids [OF assms(1)] have i: "\<forall>i\<in>set ids. i < bp_id ?bp" by simp
  have q: "queued ?rt' = queued rt @ map BreakpointValidated (bpsOf ?rt' path)"
    using c(2,3) by simp
  have f: "queued (fireTimers (length (queued ?rt')) ?rt') = []"
    by (simp only: fireTimers_all) simp
  have "emitted (fireTimers (length (queued ?rt')) ?rt') = emitted ?rt' @ queued ?rt'"
    by (simp only: fireTimers_all) simp
  with q c(5) have g: "emitted (fireTimers (length (queued ?rt')) ?rt')
                         = emitted rt @ queued rt @ map BreakpointValidated (bpsOf ?rt' path)"
    by simp
  show ?thesis
  proof (rule exI [of _ ?bp], rule exI [of _ ?rt1], rule exI [of _ ?rt'], intro conjI)
    show "addBreakpoint path line rt = (?bp\<lparr>verified := False\<rparr>, ?rt1)" by (fact a)
    show "breakPoints ?rt1 path = Some (bpsOf rt path @ [?bp\<lparr>verified := False\<rparr>])" by (fact b)
    show "?rt' = verifyBreakpoints path ?rt1" by (rule refl)
    show "setBreakPoint ccall path line rt = (Inr ?bp, ?rt')" by (fact c(1))
    show "\<forall>i\<in>set ids. i < bp_id ?bp" by (fact i)
    show "bp_line ?bp = line" by simp
    show "verified ?bp" by simp
    show "bpsOf ?rt' path = map (\<lambda>b. b\<lparr>verified := True\<rparr>) (bpsOf rt path) @ [?bp]" by (fact c(2))
    show "queued ?rt' = queued rt @ map BreakpointValidated (bpsOf ?rt' path)" by (fact q)
    show "emitted ?rt' = emitted rt" by (fact c(5))
    show "queued (fireTimers (length (queued ?rt')) ?rt') = []" by (fact f)
    show "emitted (fireTimers (length (queued ?rt')) ?rt')
            = emitted rt @ queued rt @ map BreakpointValidated (bpsOf ?rt' path)" by (fact g)
  qed
qed


theorem setBreakPoint_new_id_witness:
  "\<exists>bp rt'.
     fst (runCalls (\<lambda>_ _. True) [SetBP ''/w/code/a.rs'' 5, SetBP ''/w/code/b.rs'' 7] newRuntime)
       = [1, 2]
   \<and> toEnginePath_runtime ''/w/code/a.rs'' = Inr ''home/a.rs''
   \<and> setBreakPoint (\<lambda>_ _. True) ''/w/code/a.rs'' 9
         (snd (runCalls (\<lambda>_ _. True) [SetBP ''/w/code/a.rs'' 5, SetBP ''/w/code/b.rs'' 7]
                 newRuntime))
       = (Inr bp, rt')
   \<and> bp = \<lparr>bp_id = 3, bp_line = 9, verified = True\<rparr>
   \<and> bpsOf rt' ''/w/code/a.rs''
       = [\<lparr>bp_id = 1, bp_line = 5, verified = True\<rparr>, \<lparr>bp_id = 3, bp_line = 9, verified = True\<rparr>]
   \<and> queued rt'
       = [BreakpointValidated \<lparr>bp_id = 1, bp_line = 5, verified = True\<rparr>,
          BreakpointValidated \<lparr>bp_id = 2, bp_line = 7, verified = True\<rparr>,
          BreakpointValidated \<lparr>bp_id = 1, bp_line = 5, verified = True\<rparr>,
          BreakpointValidated \<lparr>bp_id = 3, bp_line = 9, verified = True\<rparr>]
   \<and> emitted rt' = []
   \<and> emitted (fireTimers 4 rt') = queued rt'"
proof -
  let ?e = "(\<lambda>_ _. True) :: engine"
  let ?calls = "[SetBP ''/w/code/a.rs'' 5, SetBP ''/w/code/b.rs'' 7]"
  have pa: "toEnginePath_runtime ''/w/code/a.rs'' = Inr ''home/a.rs''" by code_simp
  have pb: "toEnginePath_runtime ''/w/code/b.rs'' = Inr ''home/b.rs''" by code_simp
  have sa: "setBreakPoint ?e ''/w/code/a.rs'' line rt
              = (Inr \<lparr>bp_id = breakpointId rt, bp_line = line, verified = True\<rparr>,
                 verifyBreakpoints ''/w/code/a.rs'' (snd (addBreakpoint ''/w/code/a.rs'' line rt)))"
    for line rt
    by (rule setBreakPoint_completes(1) [where ccall = ?e, OF pa]) simp
  have sb: "setBreakPoint ?e ''/w/code/b.rs'' line rt
              = (Inr \<lparr>bp_id = breakpointId rt, bp_line = line, verified = True\<rparr>,
                 verifyBreakpoints ''/w/code/b.rs'' (snd (addBreakpoint ''/w/code/b.rs'' line rt)))"
    for line rt
    by (rule setBreakPoint_completes(1) [where ccall = ?e, OF pb]) simp
  obtain ids rt where run: "runCalls ?e ?calls newRuntime = (ids, rt)"
    by (cases "runCalls ?e ?calls newRuntime")
  then have ids: "ids = [1, 2]"
    and st: "breakpointId rt = 3"
            "bpsOf rt ''/w/code/a.rs'' = [\<lparr>bp_id = 1, bp_line = 5, verified = True\<rparr>]"
            "queued rt = [BreakpointValidated \<lparr>bp_id = 1, bp_line = 5, verified = True\<rparr>,
                          BreakpointValidated \<lparr>bp_id = 2, bp_line = 7, verified = True\<rparr>]"
            "emitted rt = []"
    by (auto simp: sa sb newRuntime_def addBreakpoint_def verifyBreakpoints_eq bpsOf_def Let_def)
  from setBreakPoint_new_id [where ccall = ?e and line = 9, OF run pa]
  obtain bp rt1 rt' where
    "setBreakPoint ?e ''/w/code/a.rs'' 9 rt = (Inr bp, rt')"
    "\<forall>i\<in>set ids. i < bp_id bp" "bp_line bp = 9" "verified bp"
    "bpsOf rt' ''/w/code/a.rs'' = map (\<lambda>b. b\<lparr>verified := True\<rparr>) (bpsOf rt ''/w/code/a.rs'') @ [bp]"
    "queued rt' = queued rt @ map BreakpointValidated (bpsOf rt' ''/w/code/a.rs'')"
    "emitted rt' = emitted rt"
    "emitted (fireTimers (length (queued rt')) rt')
       = emitted rt @ queued rt @ map BreakpointValidated (bpsOf rt' ''/w/code/a.rs'')"
    by auto
  moreover from this(1) have "bp = \<lparr>bp_id = 3, bp_line = 9, verified = True\<rparr>"
    by (simp add: sa st)
  ultimately show ?thesis
    using run ids st pa by (auto simp: eval_nat_numeral)
qed

text \<open>
  The claim as stated fails. A path without a \<open>code/\<close> segment makes the path rule throw
  before anything is stored, and a call that the engine rejects ends there too: no
  breakpoint is returned, none is stored and nothing is queued. And when the call completes
  the notification is queued on its timer, not emitted: the listeners have seen nothing
  when \<open>setBreakPoint\<close> returns, and see the event once the timer has fired.
\<close>

theorem setBreakPoint_new_id_counterexample:
  "setBreakPoint (\<lambda>_ _. True) ''a.rs'' 5 newRuntime = (Inl TypeError, newRuntime)
   \<and> setBreakPoint (\<lambda>_ _. False) ''/w/code/a.rs'' 5 newRuntime = (Inl EngineError, newRuntime)
   \<and> fst (setBreakPoint (\<lambda>_ _. True) ''/w/code/a.rs'' 5 newRuntime)
       = Inr \<lparr>bp_id = 1, bp_line = 5, verified = True\<rparr>
   \<and> queued (snd (setBreakPoint (\<lambda>_ _. True) ''/w/code/a.rs'' 5 newRuntime))
       = [BreakpointValidated \<lparr>bp_id = 1, bp_line = 5, verified = True\<rparr>]
   \<and> emitted (snd (setBreakPoint (\<lambda>_ _. True) ''/w/code/a.rs'' 5 newRuntime)) = []
   \<and> emitted (fireTimer (snd (setBreakPoint (\<lambda>_ _. True) ''/w/code/a.rs'' 5 newRuntime)))
       = [BreakpointValidated \<lparr>bp_id = 1, bp_line = 5, verified = True\<rparr>]"
proof -
  have pa: "toEnginePath_runtime ''/w/code/a.rs'' = Inr ''home/a.rs''" by code_simp
  have pn: "toEnginePath_runtime ''a.rs'' = Inl TypeError" by code_simp
  show ?thesis
    by (simp add: setBreakPoint_def pa pn addBreakpoint_def verifyBreakpoints_eq bpsOf_def
          fireTimer_def newRuntime_def Let_def)
qed

lemma findIndex_Some:
  "findIndex p xs = Some i \<Longrightarrow> i < length xs \<and> p (xs ! i) \<and> (\<forall>x\<in>set (take i xs). \<not> p x)"
proof (induction xs arbitrary: i)
  case Nil
  then show ?case by simp
next
  case (Cons x xs)
  then show ?case by (cases i) (auto split: if_splits)
qed

lemma findIndex_None: "findIndex p xs = None \<longleftrightarrow> (\<forall>x\<in>set xs. \<not> p x)"
  by (induction xs) auto

lemma getBreakpoints_frame:
  "sourceLines rt' = sourceLines rt \<Longrightarrow> getBreakpoints p l rt' = getBreakpoints p l rt"
  by (simp add: getBreakpoints_def)

text \<open>
  Claim C7, as amended. After a \<open>setBreakPoint\<close> on a file and a line that completes
  (the path has a \<open>code/\<close> and the engine call resolves), \<open>clearBreakPoint\<close> on the
  same file and line returns a breakpoint on that line, the first one of the file's list, and
  removes this one record from the list. \<open>getBreakpoints\<close> does not read the breakpoint
  store: its results are the same before and after.
\<close>

theorem set_then_clear:
  assumes "toEnginePath_runtime path = Inr lldbPath"
      and "ccall ''set_breakpoint'' [AStr lldbPath, ANum line]"
      and "setBreakPoint ccall path line rt = (res, rt1)"
      and "clearBreakPoint path line rt1 = (c, rt2)"
  shows "\<exists>bp xs ys.
           c = Some bp \<and> bp_line bp = line
         \<and> bpsOf rt1 path = xs @ bp # ys \<and> (\<forall>x\<in>set xs. bp_line x \<noteq> line)
         \<and> breakPoints rt2 path = Some (xs @ ys)
         \<and> (\<forall>p l. getBreakpoints p l rt2 = getBreakpoints p l rt)"
proof -
  let ?new = "\<lparr>bp_id = breakpointId rt, bp_line = line, verified = True\<rparr>"
  note sbp = setBreakPoint_completes [where ccall = ccall and rt = rt, OF assms(1,2)]
  from sbp(1) assms(3) have rt1: "rt1 = verifyBreakpoints path (snd (addBreakpoint path line rt))"
    by simp
  with sbp(2) have l: "bpsOf rt1 path = map (\<lambda>b. b\<lparr>verified := True\<rparr>) (bpsOf rt path) @ [?new]"
    by simp
  from rt1 have some: "breakPoints rt1 path = Some (bpsOf rt1 path)"
    by (simp add: verifyBreakpoints_eq addBreakpoint_def bpsOf_def Let_def)
  have "?new \<in> set (bpsOf rt1 path)" by (simp add: l)
  then have "findIndex (\<lambda>bp. bp_line bp = line) (bpsOf rt1 path) \<noteq> None"
    by (auto simp: findIndex_None intro: bexI [of _ ?new])
  then obtain i where i: "findIndex (\<lambda>bp. bp_line bp = line) (bpsOf rt1 path) = Some i"
    by auto
  note fi = findIndex_Some [OF i]
  let ?bps = "bpsOf rt1 path"
  from i some assms(4) have c: "c = Some (?bps ! i)"
    and rt2: "rt2 = rt1\<lparr>breakPoints := (breakPoints rt1)(path \<mapsto> take i ?bps @ drop (Suc i) ?bps)\<rparr>"
    by (auto simp: clearBreakPoint_def)
  have src: "sourceLines rt2 = sourceLines rt"
    by (simp add: rt2 rt1 verifyBreakpoints_eq addBreakpoint_def Let_def split: option.splits)
  have dec: "?bps = take i ?bps @ ?bps ! i # drop (Suc i) ?bps"
    using fi by (simp add: id_take_nth_drop)
  show ?thesis
    apply (rule exI [of _ "?bps ! i"], rule exI [of _ "take i ?bps"],
           rule exI [of _ "drop (Suc i) ?bps"])
    using c fi dec rt2 getBreakpoints_frame [OF src] by auto
qed

theorem set_then_clear_witness:
  "toEnginePath_runtime ''code/a.rs'' = Inr ''home/a.rs''
   \<and> fst (setBreakPoint (\<lambda>_ _. True) ''code/a.rs'' 5 newRuntime)
       = Inr \<lparr>bp_id = 1, bp_line = 5, verified = True\<rparr>
   \<and> fst (clearBreakPoint ''code/a.rs'' 5
            (snd (setBreakPoint (\<lambda>_ _. True) ''code/a.rs'' 5 newRuntime)))
       = Some \<lparr>bp_id = 1, bp_line = 5, verified = True\<rparr>
   \<and> breakPoints (snd (clearBreakPoint ''code/a.rs'' 5
            (snd (setBreakPoint (\<lambda>_ _. True) ''code/a.rs'' 5 newRuntime)))) ''code/a.rs''
       = Some []"
proof -
  let ?e = "(\<lambda>_ _. True) :: engine"
  have pa: "toEnginePath_runtime ''code/a.rs'' = Inr ''home/a.rs''" by code_simp
  obtain res rt1 where s: "setBreakPoint ?e ''code/a.rs'' 5 newRuntime = (res, rt1)"
    by (cases "setBreakPoint ?e ''code/a.rs'' 5 newRuntime")
  obtain c rt2 where cl: "clearBreakPoint ''code/a.rs'' 5 rt1 = (c, rt2)"
    by (cases "clearBreakPoint ''code/a.rs'' 5 rt1")
  from setBreakPoint_completes(1,2) [where ccall = ?e and rt = newRuntime and line = 5, OF pa] s
  have res: "res = Inr \<lparr>bp_id = 1, bp_line = 5, verified = True\<rparr>"
    and l: "bpsOf rt1 ''code/a.rs'' = [\<lparr>bp_id = 1, bp_line = 5, verified = True\<rparr>]"
    by (simp_all add: newRuntime_def bpsOf_def)
  from set_then_clear [where ccall = ?e, OF pa _ s cl]
  obtain bp xs ys where r: "c = Some bp" "bp_line bp = 5" "bpsOf rt1 ''code/a.rs'' = xs @ bp # ys"
    "\<forall>x\<in>set xs. bp_line x \<noteq> 5" "breakPoints rt2 ''code/a.rs'' = Some (xs @ ys)"
    by auto
  from r(3) l have "xs = [] \<and> ys = [] \<and> bp = \<lparr>bp_id = 1, bp_line = 5, verified = True\<rparr>"
    by (cases xs) auto
  with r s cl res pa show ?thesis by simp
qed

text \<open>
  The claim as stated fails: the path \<open>a.rs\<close> has no \<open>code/\<close>, so
  \<open>setBreakPoint\<close> throws a TypeError before it stores anything, and the
  \<open>clearBreakPoint\<close> that follows returns \<open>undefined\<close>. \<open>getBreakpoints\<close> on
  line 5 of a runtime without source lines throws as well.
\<close>

theorem set_then_clear_counterexample:
  "toEnginePath_runtime ''a.rs'' = Inl TypeError
   \<and> setBreakPoint (\<lambda>_ _. True) ''a.rs'' 5 newRuntime = (Inl TypeError, newRuntime)
   \<and> clearBreakPoint ''a.rs'' 5 newRuntime = (None, newRuntime)
   \<and> getBreakpoints ''a.rs'' 5 newRuntime = Inl TypeError"
proof -
  have "toEnginePath_runtime ''a.rs'' = Inl TypeError" by code_simp
  then show ?thesis
    by (simp add: setBreakPoint_def clearBreakPoint_def getBreakpoints_def newRuntime_def)
qed


section \<open>Facts about the request handlers\<close>

text \<open>
  Within the buffer, \<open>slice a b\<close> is the part from index \<open>a\<close> up to index \<open>b\<close>:
  it has \<open>b - a\<close> bytes, not \<open>b\<close>.
\<close>

lemma buffer_slice_range:
  assumes "0 \<le> a" and "a \<le> b" and "b \<le> int (length buf)"
  shows "buffer_slice buf a b = take (nat (b - a)) (drop (nat a) buf)"
  using assms by (auto simp: buffer_slice_def adjustOffset_def Let_def nat_diff_distrib)



lemma readMemoryRequest_sent:
  "sent (readMemoryRequest resp offset cnt s)
     = sent s @ [resp\<lparr>body := ReadMemoryBody ''0''
                     (base64 (buffer_slice (memory (the_runtime s)) (offsetOr0 offset) cnt))
                     (js_sub (int (length (memory (the_runtime s))))
                        (js_add (offsetOr0 offset) cnt))\<rparr>]"
  by (simp add: readMemoryRequest_def sendResponse_def Let_def)

text \<open>An integer of fewer than 54 bits is a double: sums and differences that small are exact.\<close>

lemma bitlen_le: "a < 2 ^ k \<Longrightarrow> bitlen a \<le> k"
proof (induction k arbitrary: a)
  case 0
  then show ?case by (simp add: bitlen.simps)
next
  case (Suc k)
  show ?case
  proof (cases "a = 0")
    case True
    then show ?thesis by (simp add: bitlen.simps)
  next
    case False
    from Suc.prems have "a div 2 < 2 ^ k" by simp
    then have "bitlen (a div 2) \<le> k" by (rule Suc.IH)
    with False show ?thesis by (subst bitlen.simps) simp
  qed
qed



lemma fl_exact:
  assumes "\<bar>x\<bar> < 2 ^ 53"
  shows "fl x = Num x"
proof -
  from assms have small: "nat \<bar>x\<bar> < 2 ^ 53"
    by (simp add: nat_less_iff)
  then have "bitlen (nat \<bar>x\<bar>) \<le> 53" by (rule bitlen_le)
  then have r: "round_nat (nat \<bar>x\<bar>) = nat \<bar>x\<bar>" by (simp add: round_nat_def)
  have "(2::nat) ^ 53 \<le> 2 ^ 1024" by (rule power_increasing) simp_all
  with small have "\<not> 2 ^ 1024 \<le> nat \<bar>x\<bar>" by linarith
  with r show ?thesis by (simp add: fl_def Let_def)
qed



text \<open>
  The runtime's buffer is created empty, and nothing writes it: no step of the bridge and no
  handler changes the runtime's memory, so every session has the empty buffer.
\<close>

lemma step_the_runtime: "step parse l s = Some s' \<Longrightarrow> the_runtime s' = the_runtime s"
  by (cases l)
     (auto simp: lldbRun_def set_pc_def sendParsed_def sendResponse_def
           split: if_splits pc.splits option.splits sum.splits prod.splits)

lemma exec_the_runtime: "exec parse ls s = Some s' \<Longrightarrow> the_runtime s' = the_runtime s"
proof (induction ls arbitrary: s)
  case Nil
  then show ?case by simp
next
  case (Cons l ls)
  then show ?case by (auto split: option.splits dest: step_the_runtime)
qed


lemma memory_readMemoryRequest:
  "the_runtime (readMemoryRequest resp offset cnt s) = the_runtime s"
  by (simp add: readMemoryRequest_def sendResponse_def Let_def)

lemma memory_continueRequest:
  "memory (the_runtime (continueRequest ccall resp s)) = memory (the_runtime s)"
  by (simp add: continueRequest_def continue_runtime_def sendEvent_def sendResponse_def)




text \<open>
  On a buffer that is not empty, which no session of this repository has, the handler
  passes the count to \<open>slice\<close> as the end index: at offset 1 and count 2 on the four bytes
  1, 2, 3, 4 the data are the base64 encoding of the single byte 2, not of the two bytes
  2, 3 that start at offset 1, while the unreadable bytes, \<open>4 - (1 + 2)\<close>, take the count
  as a length.
\<close>

lemma readMemoryRequest_end_index:
  "sent (readMemoryRequest \<lparr>request_seq = 7, command = ''readMemory'', success = True, body = NoBody\<rparr>
           (Some 1) 2 (newSession\<lparr>the_runtime := newRuntime\<lparr>memory := [1, 2, 3, 4]\<rparr>\<rparr>))
     = [\<lparr>request_seq = 7, command = ''readMemory'', success = True,
         body = ReadMemoryBody ''0'' ''Ag=='' (Num 1)\<rparr>]
   \<and> base64 [2] = ''Ag==''
   \<and> base64 (take 2 (drop 1 [1, 2, 3, 4])) = ''AgM=''"
proof -
  have d: "base64 (buffer_slice [1, 2, 3, 4] 1 2) = ''Ag==''" by code_simp
  have b: "base64 [2] = ''Ag=='' \<and> base64 (take 2 (drop 1 [1, 2, 3, 4])) = ''AgM=''" by code_simp
  have s: "sent newSession = []" by (simp add: newSession_def)
  have "sent (readMemoryRequest \<lparr>request_seq = 7, command = ''readMemory'', success = True, body = NoBody\<rparr>
           (Some 1) 2 (newSession\<lparr>the_runtime := newRuntime\<lparr>memory := [1, 2, 3, 4]\<rparr>\<rparr>))
     = [\<lparr>request_seq = 7, command = ''readMemory'', success = True,
         body = ReadMemoryBody ''0'' ''Ag=='' (Num 1)\<rparr>]"
    by (simp add: readMemoryRequest_sent offsetOr0_def js_add_def js_sub_def fl_exact d s)
  with b show ?thesis by simp
qed

text \<open>
  Claim C10. A variables request whose filter is \<open>named\<close> is answered at once with
  \<open>success = false\<close>, and nothing else of the session changes: no activation of
  \<open>lldbRun\<close> starts, so no buffer is allocated or written, and the flag of the bridge and
  the runtime stay as they are.
\<close>

theorem variablesRequest_named:
  assumes "arg_filter args = Some ''named''"
  shows "variablesRequest stringify resp args rq s = s\<lparr>sent := sent s @ [resp\<lparr>success := False\<rparr>]\<rparr>
       \<and> sent (variablesRequest stringify resp args rq s) = sent s @ [resp\<lparr>success := False\<rparr>]
       \<and> \<not> success (last (sent (variablesRequest stringify resp args rq s)))
       \<and> runs (variablesRequest stringify resp args rq s) = runs s
       \<and> live_buffers (variablesRequest stringify resp args rq s) = live_buffers s
       \<and> isRunningLldb (variablesRequest stringify resp args rq s) = isRunningLldb s
       \<and> the_runtime (variablesRequest stringify resp args rq s) = the_runtime s"
  using assms by (simp add: variablesRequest_def sendResponse_def live_buffers_def)

theorem variablesRequest_named_witness:
  "arg_filter \<lparr>variablesReference = 3, arg_filter = Some ''named''\<rparr> = Some ''named''
   \<and> variablesRequest (\<lambda>q. q)
        \<lparr>request_seq = 9, command = ''variables'', success = True, body = NoBody\<rparr>
        \<lparr>variablesReference = 3, arg_filter = Some ''named''\<rparr> ''{}'' newSession
     = newSession\<lparr>sent := [\<lparr>request_seq = 9, command = ''variables'', success = False,
                               body = NoBody\<rparr>]\<rparr>"
  using variablesRequest_named [of "\<lparr>variablesReference = 3, arg_filter = Some ''named''\<rparr>"
      "\<lambda>q. q" "\<lparr>request_seq = 9, command = ''variables'', success = True, body = NoBody\<rparr>"
      "''{}''" newSession]
  by (simp add: newSession_def)

text \<open>Any other filter, or none, goes through the bridge.\<close>

lemma variablesRequest_other:
  "arg_filter args \<noteq> Some ''named'' \<Longrightarrow>
   variablesRequest stringify resp args rq s = lldbRun ''request_variables'' (stringify rq) s"
  by (simp add: variablesRequest_def)


text \<open>
  What the bridge does to a response: it rewrites the frames of a stack-trace response and
  passes every other response on as it is.
\<close>

lemma rewriteResponse_stackTrace:
  "body r = StackTraceBody b \<Longrightarrow>
   rewriteResponse ''request_stackTrace'' r
     = (case adjustStackTrace b of Inl e \<Rightarrow> Inl e | Inr b' \<Rightarrow> Inr (r\<lparr>body := StackTraceBody b'\<rparr>))"
  by (simp add: rewriteResponse_def)

lemma rewriteResponse_other: "fn \<noteq> ''request_stackTrace'' \<Longrightarrow> rewriteResponse fn r = Inr r"
  by (simp add: rewriteResponse_def)

section \<open>Facts about the engine bridge\<close>

lemma length_runs_set_pc [simp]: "length (runs (set_pc i p s)) = length (runs s)"
  by (simp add: set_pc_def)

lemma flag_set_pc [simp]: "isRunningLldb (set_pc i p s) = isRunningLldb s"
  by (simp add: set_pc_def)

lemma pc_set_pc:
  "i < length (runs s) \<Longrightarrow> pc (runs (set_pc i p s) ! k) = (if k = i then p else pc (runs s ! k))"
  by (simp add: set_pc_def nth_list_update)

lemma pcs_set_pc:
  "map pc (runs (set_pc i p s)) = (map pc (runs s))[i := p]"
  by (simp add: set_pc_def map_update)

lemma count_update:
  "i < length xs \<Longrightarrow>
   length (filter P (xs[i := y])) + (if P (xs ! i) then 1 else 0)
     = length (filter P xs) + (if P y then 1 else 0)"
proof (induction xs arbitrary: i)
  case Nil
  then show ?case by simp
next
  case (Cons x xs)
  then show ?case by (cases i) auto
qed

lemma holders_set_pc:
  "i < length (runs s) \<Longrightarrow>
   holders (set_pc i p s) + (if holds_bridge (pc (runs s ! i)) then 1 else 0)
     = holders s + (if holds_bridge p then 1 else 0)"
  using count_update [of i "map pc (runs s)" holds_bridge p]
  by (simp add: holders_def pcs_set_pc)

lemma holders_flag [simp]: "holders (s\<lparr>isRunningLldb := b\<rparr>) = holders s"
  by (simp add: holders_def)

lemma holders_sendResponse [simp]: "holders (sendResponse r s) = holders s"
  by (simp add: holders_def sendResponse_def)

lemma runs_sendResponse [simp]: "runs (sendResponse r s) = runs s"
  by (simp add: sendResponse_def)

lemma flag_sendResponse [simp]: "isRunningLldb (sendResponse r s) = isRunningLldb s"
  by (simp add: sendResponse_def)

lemma holders_sendParsed [simp]: "holders (sendParsed sq r s) = holders s"
  by (simp add: sendParsed_def)

lemma runs_sendParsed [simp]: "runs (sendParsed sq r s) = runs s"
  by (simp add: sendParsed_def)

lemma flag_sendParsed [simp]: "isRunningLldb (sendParsed sq r s) = isRunningLldb s"
  by (simp add: sendParsed_def)

lemma bridge_inv_lldbRun: "bridge_inv s \<Longrightarrow> bridge_inv (lldbRun fn req s)"
  by (auto simp: bridge_inv_def holders_def lldbRun_def)

lemma bridge_inv_step:
  assumes "bridge_inv s" and "step parse l s = Some s'"
  shows "bridge_inv s'"
proof (cases l)
  case (Issue fn req)
  with assms(2) have "s' = lldbRun fn req s" by simp
  with assms(1) show ?thesis by (simp add: bridge_inv_lldbRun)
next
  case (Wake i)
  with assms have i: "i < length (runs s)" "pc (runs s ! i) = Sleeping"
    by (auto split: if_splits)
  show ?thesis
  proof (cases "isRunningLldb s")
    case True
    with Wake assms i show ?thesis by simp
  next
    case False
    with Wake assms i have s': "s' = set_pc i Acquired (s\<lparr>isRunningLldb := True\<rparr>)" by simp
    from holders_set_pc [of i "s\<lparr>isRunningLldb := True\<rparr>" Acquired] i
    have "holders s' = holders s + 1" by (simp add: s')
    with False assms(1) show ?thesis by (simp add: bridge_inv_def s')
  qed
next
  case (Malloc i rx)
  with assms have i: "i < length (runs s)" "pc (runs s ! i) = Acquired"
    and s': "s' = set_pc i (Allocated rx) s"
    by (auto split: if_splits)
  from holders_set_pc [of i s "Allocated rx"] i have "holders s' = holders s" by (simp add: s')
  with assms(1) show ?thesis by (simp add: bridge_inv_def s')
next
  case (WriteRequest i)
  with assms obtain rx where i: "i < length (runs s)" "pc (runs s ! i) = Allocated rx"
    and s': "s' = set_pc i (Written rx) s"
    by (auto split: if_splits pc.splits)
  from holders_set_pc [of i s "Written rx"] i have "holders s' = holders s" by (simp add: s')
  with assms(1) show ?thesis by (simp add: bridge_inv_def s')
next
  case (Invoke i)
  with assms obtain rx where i: "i < length (runs s)" "pc (runs s ! i) = Written rx"
    and s': "s' = set_pc i (Calling rx) s"
    by (auto split: if_splits pc.splits)
  from holders_set_pc [of i s "Calling rx"] i have "holders s' = holders s" by (simp add: s')
  with assms(1) show ?thesis by (simp add: bridge_inv_def s')
next
  case (EngineReturn i tx str)
  with assms obtain rx where i: "i < length (runs s)" "pc (runs s ! i) = Calling rx"
    and s': "s' = set_pc i (Returned rx tx str) s"
    by (auto split: if_splits pc.splits)
  from holders_set_pc [of i s "Returned rx tx str"] i have "holders s' = holders s"
    by (simp add: s')
  with assms(1) show ?thesis by (simp add: bridge_inv_def s')
next
  case (EngineReject i)
  with assms obtain rx where i: "i < length (runs s)" "pc (runs s ! i) = Calling rx"
    and s': "s' = set_pc i (Failed [rx]) s"
    by (auto split: if_splits pc.splits)
  from holders_set_pc [of i s "Failed [rx]"] i have "holders s' = holders s" by (simp add: s')
  with assms(1) show ?thesis by (simp add: bridge_inv_def s')
next
  case (Respond i)
  with assms obtain rx tx str where i: "i < length (runs s)" "pc (runs s ! i) = Returned rx tx str"
    by (auto split: if_splits pc.splits)
  with Respond assms(2) obtain p s1 where s': "s' = set_pc i p s1" and p: "holds_bridge p"
    and s1: "holders s1 = holders s" "runs s1 = runs s" "isRunningLldb s1 = isRunningLldb s"
    by (auto split: option.splits sum.splits)
  from holders_set_pc [of i s1 p] i p s1 have "holders s' = holders s" by (simp add: s')
  with assms(1) s1 show ?thesis by (simp add: bridge_inv_def s')
next
  case (FreeTx i)
  with assms obtain tx where i: "i < length (runs s)" "pc (runs s ! i) = FreedRx tx"
    and s': "s' = set_pc i FreedTx s"
    by (auto split: if_splits pc.splits)
  from holders_set_pc [of i s FreedTx] i have "holders s' = holders s" by (simp add: s')
  with assms(1) show ?thesis by (simp add: bridge_inv_def s')
next
  case (Release i)
  with assms have i: "i < length (runs s)" "pc (runs s ! i) = FreedTx"
    and s': "s' = set_pc i Finished (s\<lparr>isRunningLldb := False\<rparr>)"
    by (auto split: if_splits)
  from holders_set_pc [of i "s\<lparr>isRunningLldb := False\<rparr>" Finished] i
  have "holders s' + 1 = holders s" by (simp add: s')
  with assms(1) show ?thesis by (auto simp: bridge_inv_def s' split: if_splits)
qed

lemma bridge_inv_newSession: "bridge_inv newSession"
  by (simp add: bridge_inv_def holders_def newSession_def)

lemma bridge_inv_exec:
  "bridge_inv s \<Longrightarrow> exec parse ls s = Some s' \<Longrightarrow> bridge_inv s'"
proof (induction ls arbitrary: s)
  case Nil
  then show ?case by simp
next
  case (Cons l ls)
  then show ?case by (auto split: option.splits dest: bridge_inv_step)
qed

lemma two_holders:
  assumes "a < length xs" and "b < length xs" and "a \<noteq> b" and "P (xs ! a)" and "P (xs ! b)"
  shows "2 \<le> length (filter P xs)"
proof -
  have "{a, b} \<subseteq> {i. i < length xs \<and> P (xs ! i)}" using assms by auto
  then have "card {a, b} \<le> card {i. i < length xs \<and> P (xs ! i)}"
    by (intro card_mono) auto
  with assms(3) show ?thesis by (simp add: length_filter_conv_card)
qed

lemma bridge_inv_mutex:
  assumes "bridge_inv s" and "a < length (runs s)" and "b < length (runs s)"
      and "holds_bridge (pc (runs s ! a))" and "holds_bridge (pc (runs s ! b))"
  shows "a = b"
proof (rule ccontr)
  assume "a \<noteq> b"
  with assms(2-5) have "2 \<le> holders s"
    unfolding holders_def by (intro two_holders [of a _ b]) simp_all
  with assms(1) show False by (simp add: bridge_inv_def split: if_splits)
qed

lemma bridge_inv_flag:
  assumes "bridge_inv s" and "a < length (runs s)" and "holds_bridge (pc (runs s ! a))"
  shows "isRunningLldb s"
proof (rule ccontr)
  assume "\<not> isRunningLldb s"
  with assms(1) have "length (filter holds_bridge (map pc (runs s))) = 0"
    by (simp add: bridge_inv_def holders_def)
  then have "filter holds_bridge (map pc (runs s)) = []"
    by (simp only: length_0_conv)
  then have "\<forall>p\<in>set (map pc (runs s)). \<not> holds_bridge p"
    by (simp only: filter_empty_conv)
  with assms(2,3) show False by (metis length_map nth_map nth_mem)
qed


lemmas step_splits = if_splits pc.splits option.splits sum.splits prod.splits

lemma step_length: "step parse l s = Some s' \<Longrightarrow> length (runs s) \<le> length (runs s')"
  by (cases l) (auto simp: lldbRun_def split: step_splits)

lemma step_sleeping_back:
  "step parse l s = Some s' \<Longrightarrow> k < length (runs s) \<Longrightarrow> pc (runs s' ! k) = Sleeping \<Longrightarrow>
   pc (runs s ! k) = Sleeping"
  by (cases l) (auto simp: lldbRun_def nth_append pc_set_pc split: step_splits)

lemma step_finished_stays:
  "step parse l s = Some s' \<Longrightarrow> k < length (runs s) \<Longrightarrow> pc (runs s ! k) = Finished \<Longrightarrow>
   pc (runs s' ! k) = Finished"
  by (cases l) (auto simp: lldbRun_def nth_append pc_set_pc split: step_splits)

lemma step_release:
  "step parse l s = Some s' \<Longrightarrow> k < length (runs s) \<Longrightarrow> pc (runs s ! k) \<noteq> Finished \<Longrightarrow>
   pc (runs s' ! k) = Finished \<Longrightarrow> l = Release k"
  by (cases l) (auto simp: lldbRun_def nth_append pc_set_pc split: step_splits)

lemma step_observed:
  "step parse l s = Some s' \<Longrightarrow> k < length (runs s') \<Longrightarrow> observed (pc (runs s' ! k)) \<Longrightarrow>
   (k < length (runs s) \<and> observed (pc (runs s ! k))) \<or> (\<exists>tx str. l = EngineReturn k tx str)"
  by (cases l) (auto simp: lldbRun_def nth_append pc_set_pc split: step_splits)

lemma step_sleeping_stays:
  "step parse l s = Some s' \<Longrightarrow> k < length (runs s) \<Longrightarrow> pc (runs s ! k) = Sleeping \<Longrightarrow>
   isRunningLldb s \<Longrightarrow> pc (runs s' ! k) = Sleeping"
  by (cases l) (auto simp: lldbRun_def nth_append pc_set_pc split: step_splits)


lemma exec_append:
  "exec parse (xs @ ys) s = (case exec parse xs s of None \<Rightarrow> None | Some s' \<Rightarrow> exec parse ys s')"
  by (induction xs arbitrary: s) (auto split: option.splits)

lemma exec_length: "exec parse ls s = Some s' \<Longrightarrow> length (runs s) \<le> length (runs s')"
proof (induction ls arbitrary: s)
  case Nil
  then show ?case by simp
next
  case (Cons l ls)
  then show ?case by (auto split: option.splits dest!: step_length) fastforce
qed

lemma behind_step:
  assumes inv: "bridge_inv s" and b: "behind i j s" and st: "step parse l s = Some s'"
  shows "behind i j s'"
proof -
  from b have i: "i < length (runs s)" and j: "j < length (runs s)"
    and ns: "pc (runs s ! i) \<noteq> Sleeping"
    by (simp_all add: behind_def)
  from step_length [OF st] i j have len: "i < length (runs s')" "j < length (runs s')"
    by simp_all
  from ns step_sleeping_back [OF st i] have ns': "pc (runs s' ! i) \<noteq> Sleeping" by blast
  show ?thesis
  proof (cases "pc (runs s ! i) = Finished")
    case True
    with step_finished_stays [OF st i] len ns' show ?thesis by (simp add: behind_def)
  next
    case False
    with b have sl: "pc (runs s ! j) = Sleeping" by (simp add: behind_def)
    from False ns have "holds_bridge (pc (runs s ! i))" by (cases "pc (runs s ! i)") simp_all
    with inv i have "isRunningLldb s" by (rule bridge_inv_flag)
    with step_sleeping_stays [OF st j sl] have "pc (runs s' ! j) = Sleeping" by simp
    with len ns' show ?thesis by (simp add: behind_def)
  qed
qed

lemma behind_exec:
  "bridge_inv s \<Longrightarrow> behind i j s \<Longrightarrow> exec parse ls s = Some s' \<Longrightarrow> behind i j s'"
proof (induction ls arbitrary: s)
  case Nil
  then show ?case by simp
next
  case (Cons l ls)
  from Cons.prems(3) obtain s1 where s1: "step parse l s = Some s1" "exec parse ls s1 = Some s'"
    by (auto split: option.splits)
  from Cons.prems(1) s1(1) have "bridge_inv s1" by (rule bridge_inv_step)
  moreover from Cons.prems(1,2) s1(1) have "behind i j s1" by (rule behind_step)
  ultimately show ?case using s1(2) by (rule Cons.IH)
qed

lemma exec_release:
  "exec parse ls s = Some s' \<Longrightarrow> k < length (runs s) \<Longrightarrow> pc (runs s ! k) \<noteq> Finished \<Longrightarrow>
   pc (runs s' ! k) = Finished \<Longrightarrow> Release k \<in> set ls"
proof (induction ls arbitrary: s)
  case Nil
  then show ?case by simp
next
  case (Cons l ls)
  from Cons.prems(1) obtain s1 where s1: "step parse l s = Some s1" "exec parse ls s1 = Some s'"
    by (auto split: option.splits)
  from step_length [OF s1(1)] Cons.prems(2) have k: "k < length (runs s1)" by simp
  show ?case
  proof (cases "pc (runs s1 ! k) = Finished")
    case True
    with step_release [OF s1(1) Cons.prems(2,3)] show ?thesis by simp
  next
    case False
    from Cons.IH [OF s1(2) k False Cons.prems(4)] show ?thesis by simp
  qed
qed

lemma exec_observed:
  "exec parse ls s = Some s' \<Longrightarrow> k < length (runs s') \<Longrightarrow> observed (pc (runs s' ! k)) \<Longrightarrow>
   (k < length (runs s) \<and> observed (pc (runs s ! k))) \<or> (\<exists>tx str. EngineReturn k tx str \<in> set ls)"
proof (induction ls arbitrary: s)
  case Nil
  then show ?case by simp
next
  case (Cons l ls)
  from Cons.prems(1) obtain s1 where s1: "step parse l s = Some s1" "exec parse ls s1 = Some s'"
    by (auto split: option.splits)
  from Cons.IH [OF s1(2) Cons.prems(2,3)]
  show ?case
  proof
    assume "k < length (runs s1) \<and> observed (pc (runs s1 ! k))"
    with step_observed [OF s1(1)] show ?thesis by auto
  next
    assume "\<exists>tx str. EngineReturn k tx str \<in> set ls"
    then show ?thesis by auto
  qed
qed

text \<open>
  The state after a call of \<open>lldbRun\<close> made while activation \<open>i\<close> holds the bridge: the
  new activation, at the end of the list, waits behind \<open>i\<close>.
\<close>

lemma behind_issue:
  assumes "bridge_inv s0" and "i < length (runs s0)" and "holds_bridge (pc (runs s0 ! i))"
  shows "behind i (length (runs s0)) (lldbRun fn req s0)"
proof -
  from assms have "isRunningLldb s0" by (rule bridge_inv_flag)
  moreover from assms(3) have "pc (runs s0 ! i) \<noteq> Sleeping" by auto
  ultimately show ?thesis
    using assms(2) by (simp add: behind_def lldbRun_def nth_append)
qed

lemma second_waits:
  assumes e0: "exec parse l0 newSession = Some s0"
      and i: "i < length (runs s0)" and h: "holds_bridge (pc (runs s0 ! i))"
      and e1: "exec parse (Issue fn req # l) s0 = Some s"
  shows "bridge_inv s" and "behind i (length (runs s0)) s"
    and "pc (runs s ! length (runs s0)) \<noteq> Sleeping \<Longrightarrow>
         Release i \<in> set l \<and> (\<exists>tx str. EngineReturn i tx str \<in> set (l0 @ l))"
proof -
  from bridge_inv_newSession e0 have inv0: "bridge_inv s0" by (rule bridge_inv_exec)
  let ?s = "lldbRun fn req s0"
  from e1 have e: "exec parse l ?s = Some s" by simp
  from inv0 have inv1: "bridge_inv ?s" by (rule bridge_inv_lldbRun)
  from inv1 e show inv: "bridge_inv s" by (rule bridge_inv_exec)
  from inv0 i h have "behind i (length (runs s0)) ?s" by (rule behind_issue)
  with inv1 show b: "behind i (length (runs s0)) s" using e by (rule behind_exec)
  assume "pc (runs s ! length (runs s0)) \<noteq> Sleeping"
  with b have fin: "pc (runs s ! i) = Finished" and ilen: "i < length (runs s)"
    by (simp_all add: behind_def)
  from h have nf: "pc (runs ?s ! i) \<noteq> Finished"
    using i by (auto simp: lldbRun_def nth_append)
  from i have i1: "i < length (runs ?s)" by (simp add: lldbRun_def)
  from exec_release [OF e i1 nf fin] have rel: "Release i \<in> set l" .
  have "exec parse (l0 @ Issue fn req # l) newSession = Some s"
    using e0 e1 by (simp add: exec_append)
  from exec_observed [OF this ilen] fin
  have "\<exists>tx str. EngineReturn i tx str \<in> set (l0 @ Issue fn req # l)"
    by (auto simp: newSession_def)
  then have "\<exists>tx str. EngineReturn i tx str \<in> set (l0 @ l)" by auto
  with rel show "Release i \<in> set l \<and> (\<exists>tx str. EngineReturn i tx str \<in> set (l0 @ l))" by simp
qed


lemma buffers_holds: "buffers_of p \<noteq> [] \<Longrightarrow> holds_bridge p"
  by (cases p) simp_all

lemma exec_snoc_step:
  assumes "exec parse (la @ l # lb) s = Some s'"
  obtains sa sb where "exec parse la s = Some sa" and "step parse l sa = Some sb"
  using assms by (auto simp: exec_append split: option.splits)

text \<open>
  Claim C2, as amended: the first call holds the bridge when the second is issued, and the
  calls are those made through \<open>lldbRun\<close>. Take any run of the session from its start, a
  moment at which an activation \<open>i\<close> of \<open>lldbRun\<close> holds the bridge (it has left the
  polling loop and has not cleared the flag), a second call of \<open>lldbRun\<close> made at that
  moment (it becomes the activation of index \<open>length (runs s0)\<close>), and any continuation
  \<open>l1\<close> of the run. Then
  \<^item> in every state that a run of the session reaches, at most one activation holds the
    bridge, that is, is anywhere between setting and clearing the flag, the call into the
    engine included;
  \<^item> in the state reached by \<open>l1\<close>, at most one activation holds buffers in the
    engine's memory: the lifetimes of the buffers of two calls never overlap;
  \<^item> the second activation is still asleep in the loop unless the first has finished;
  \<^item> if the second activation writes its request buffer at some step of \<open>l1\<close>, then
    before that step the first has cleared the flag, and its response has been read;
  \<^item> if the second activation clears the flag at some step of \<open>l1\<close>, the first has
    cleared it before: the two calls finish in the order of their submission.

  An activation that throws (the engine rejects, the response does not parse, the rewriting
  fails) keeps the flag for ever, and every later call then sleeps for ever: the theorem says
  when the second call may proceed, not that it does.
\<close>

theorem bridge_single_flight:
  assumes "exec parse l0 newSession = Some s0"
      and "i < length (runs s0)" and "holds_bridge (pc (runs s0 ! i))"
      and "exec parse (Issue fn req # l1) s0 = Some s1"
  shows "(\<forall>ls s a b. exec parse ls newSession = Some s
                \<and> a < length (runs s) \<and> b < length (runs s)
                \<and> holds_bridge (pc (runs s ! a)) \<and> holds_bridge (pc (runs s ! b))
              \<longrightarrow> a = b)
       \<and> (\<forall>a b. a < length (runs s1) \<and> b < length (runs s1)
                \<and> buffers_of (pc (runs s1 ! a)) \<noteq> [] \<and> buffers_of (pc (runs s1 ! b)) \<noteq> []
              \<longrightarrow> a = b)
       \<and> (pc (runs s1 ! length (runs s0)) = Sleeping \<or> pc (runs s1 ! i) = Finished)
       \<and> (\<forall>la lb. l1 = la @ WriteRequest (length (runs s0)) # lb
              \<longrightarrow> Release i \<in> set la \<and> (\<exists>tx str. EngineReturn i tx str \<in> set (l0 @ la)))
       \<and> (\<forall>la lb. l1 = la @ Release (length (runs s0)) # lb \<longrightarrow> Release i \<in> set la)"
proof (intro conjI allI impI)
  note sw = second_waits [OF assms(1-3)]
  from sw(1) [OF assms(4)] have inv: "bridge_inv s1" .
  {
    fix ls s a b
    assume r: "exec parse ls newSession = Some s
            \<and> a < length (runs s) \<and> b < length (runs s)
            \<and> holds_bridge (pc (runs s ! a)) \<and> holds_bridge (pc (runs s ! b))"
    with bridge_inv_newSession have "bridge_inv s" by (blast intro: bridge_inv_exec)
    with r show "a = b" by (blast intro: bridge_inv_mutex)
  next
    fix a b
    assume "a < length (runs s1) \<and> b < length (runs s1)
            \<and> buffers_of (pc (runs s1 ! a)) \<noteq> [] \<and> buffers_of (pc (runs s1 ! b)) \<noteq> []"
    with inv show "a = b" by (blast intro: bridge_inv_mutex buffers_holds)
  next
    from sw(2) [OF assms(4)]
    show "pc (runs s1 ! length (runs s0)) = Sleeping \<or> pc (runs s1 ! i) = Finished"
      by (simp add: behind_def)
  next
    fix la lb
    assume l1: "l1 = la @ WriteRequest (length (runs s0)) # lb"
    with assms(4) have "exec parse ((Issue fn req # la) @ WriteRequest (length (runs s0)) # lb) s0
                          = Some s1"
      by simp
    then obtain sa sb where sa: "exec parse (Issue fn req # la) s0 = Some sa"
      and sb: "step parse (WriteRequest (length (runs s0))) sa = Some sb"
      by (rule exec_snoc_step)
    from sb have "pc (runs sa ! length (runs s0)) \<noteq> Sleeping"
      by (auto split: step_splits)
    with sw(3) [OF sa]
    have r: "Release i \<in> set la \<and> (\<exists>tx str. EngineReturn i tx str \<in> set (l0 @ la))" .
    from r show "Release i \<in> set la" ..
    from r show "\<exists>tx str. EngineReturn i tx str \<in> set (l0 @ la)" ..
  next
    fix la lb
    assume l1: "l1 = la @ Release (length (runs s0)) # lb"
    with assms(4) have "exec parse ((Issue fn req # la) @ Release (length (runs s0)) # lb) s0
                          = Some s1"
      by simp
    then obtain sa sb where sa: "exec parse (Issue fn req # la) s0 = Some sa"
      and sb: "step parse (Release (length (runs s0))) sa = Some sb"
      by (rule exec_snoc_step)
    from sb have "pc (runs sa ! length (runs s0)) \<noteq> Sleeping"
      by (auto split: step_splits)
    with sw(3) [OF sa] show "Release i \<in> set la" by simp
  }
qed


theorem bridge_single_flight_witness:
  "\<exists>s0 s1.
     exec (\<lambda>_. Some (0, \<lparr>request_seq = 1, command = ''scopes'', success = True, body = OtherBody ''{}''\<rparr>))
       [Issue ''request_scopes'' ''{1}''] newSession = Some s0
   \<and> 0 < length (runs s0) \<and> holds_bridge (pc (runs s0 ! 0))
   \<and> exec (\<lambda>_. Some (0, \<lparr>request_seq = 1, command = ''scopes'', success = True, body = OtherBody ''{}''\<rparr>))
       (Issue ''request_variables'' ''{2}'' #
        [Malloc 0 16, WriteRequest 0, Invoke 0, EngineReturn 0 32 ''{}'', Respond 0, FreeTx 0,
         Release 0, Wake 1, Malloc 1 16] @
        WriteRequest 1 # [Invoke 1, EngineReturn 1 32 ''{}'', Respond 1, FreeTx 1, Release 1])
       s0 = Some s1
   \<and> map pc (runs s1) = [Finished, Finished]
   \<and> length (sent s1) = 2
   \<and> \<not> isRunningLldb s1
   \<and> Release 0 \<in> set [Malloc 0 16, WriteRequest 0, Invoke 0, EngineReturn 0 32 ''{}'', Respond 0,
                        FreeTx 0, Release 0, Wake 1, Malloc 1 16]"
proof -
  let ?P = "\<lambda>_::string. Some (0::int, \<lparr>request_seq = 1, command = ''scopes'', success = True,
                                          body = OtherBody ''{}''\<rparr>)"
  let ?la = "[Malloc 0 16, WriteRequest 0, Invoke 0, EngineReturn 0 32 ''{}'', Respond 0, FreeTx 0,
              Release 0, Wake 1, Malloc 1 16]"
  let ?lb = "[Invoke 1, EngineReturn 1 32 ''{}'', Respond 1, FreeTx 1, Release 1]"
  obtain s0 where e0: "exec ?P [Issue ''request_scopes'' ''{1}''] newSession = Some s0"
    by simp
  then have s0: "s0 = lldbRun ''request_scopes'' ''{1}'' newSession" by simp
  have i: "0 < length (runs s0)" and h: "holds_bridge (pc (runs s0 ! 0))"
    and n: "length (runs s0) = 1"
    by (simp_all add: s0 lldbRun_def newSession_def)
  obtain s1 where e1: "exec ?P (Issue ''request_variables'' ''{2}'' # ?la @ WriteRequest 1 # ?lb) s0
                         = Some s1"
    by (simp add: s0 lldbRun_def newSession_def set_pc_def sendParsed_def sendResponse_def rewriteResponse_def)
  then have fin: "map pc (runs s1) = [Finished, Finished]" "length (sent s1) = 2"
      "\<not> isRunningLldb s1"
    by (auto simp: s0 lldbRun_def newSession_def set_pc_def sendParsed_def sendResponse_def rewriteResponse_def)
  from bridge_single_flight [OF e0 i h e1]
  have "\<forall>la lb. ?la @ WriteRequest 1 # ?lb = la @ WriteRequest (length (runs s0)) # lb
          \<longrightarrow> Release 0 \<in> set la"
    by blast
  then have r: "Release 0 \<in> set ?la" unfolding n by blast
  show ?thesis
  proof (rule exI [of _ s0], rule exI [of _ s1], intro conjI)
    show "exec ?P [Issue ''request_scopes'' ''{1}''] newSession = Some s0" by (fact e0)
    show "0 < length (runs s0)" by (fact i)
    show "holds_bridge (pc (runs s0 ! 0))" by (fact h)
    show "exec ?P (Issue ''request_variables'' ''{2}'' # ?la @ WriteRequest 1 # ?lb) s0 = Some s1"
      by (fact e1)
    show "map pc (runs s1) = [Finished, Finished]" by (fact fin(1))
    show "length (sent s1) = 2" by (fact fin(2))
    show "\<not> isRunningLldb s1" by (fact fin(3))
    show "Release 0 \<in> set ?la" by (fact r)
  qed
qed


text \<open>
  The claim as stated fails where the first call is outstanding but still in the polling
  loop. Three calls are made in a row: the first holds the bridge, the second and the third
  sleep. When the first has cleared the flag, the timer of the third may fire before the
  timer of the second: the third then writes its request buffer while the second, issued
  before it and still outstanding, has no response yet, and the third finishes first.

  And the bridge serialises only the calls made through \<open>lldbRun\<close>. While an activation
  waits for the engine (\<open>Calling\<close>), \<open>continueRequest\<close> makes the runtime call the engine
  on its own: with an engine that resolves the call, the stop event is queued and the response
  sent, and the activation is still waiting; an engine that rejects the call shows that the
  call is made.
\<close>

theorem bridge_single_flight_counterexample:
  "map_option (\<lambda>s. map pc (runs s))
     (exec (\<lambda>_. Some (0, \<lparr>request_seq = 1, command = ''scopes'', success = True, body = OtherBody ''{}''\<rparr>))
        [Issue ''request_scopes'' ''{1}'', Issue ''request_variables'' ''{2}'',
         Issue ''request_variables'' ''{3}'',
         Malloc 0 16, WriteRequest 0, Invoke 0, EngineReturn 0 32 ''{}'', Respond 0, FreeTx 0,
         Release 0, Wake 2, Malloc 2 16, WriteRequest 2] newSession)
     = Some [Finished, Sleeping, Written 16]
   \<and> map_option (\<lambda>s. map pc (runs s))
     (exec (\<lambda>_. Some (0, \<lparr>request_seq = 1, command = ''scopes'', success = True, body = OtherBody ''{}''\<rparr>))
        [Issue ''request_scopes'' ''{1}'', Issue ''request_variables'' ''{2}'',
         Issue ''request_variables'' ''{3}'',
         Malloc 0 16, WriteRequest 0, Invoke 0, EngineReturn 0 32 ''{}'', Respond 0, FreeTx 0,
         Release 0, Wake 2, Malloc 2 16, WriteRequest 2, Invoke 2, EngineReturn 2 32 ''{}'',
         Respond 2, FreeTx 2, Release 2] newSession)
     = Some [Finished, Sleeping, Finished]
   \<and> map_option (\<lambda>s. (map pc (runs s), isRunningLldb s))
     (exec (\<lambda>_. Some (0, \<lparr>request_seq = 1, command = ''scopes'', success = True, body = OtherBody ''{}''\<rparr>))
        [Issue ''request_scopes'' ''{1}'', Malloc 0 16, WriteRequest 0, Invoke 0] newSession)
     = Some ([Calling 16], True)
   \<and> map_option
       (\<lambda>s. let s' = continueRequest (\<lambda>_ _. True)
                         \<lparr>request_seq = 2, command = ''continue'', success = True, body = NoBody\<rparr> s
            in (map pc (runs s'), queued (the_runtime s'), map command (sent s')))
     (exec (\<lambda>_. Some (0, \<lparr>request_seq = 1, command = ''scopes'', success = True, body = OtherBody ''{}''\<rparr>))
        [Issue ''request_scopes'' ''{1}'', Malloc 0 16, WriteRequest 0, Invoke 0] newSession)
     = Some ([Calling 16], [StopOnBreakpoint], [''continue''])
   \<and> map_option
       (\<lambda>s. let s' = continueRequest (\<lambda>_ _. False)
                         \<lparr>request_seq = 2, command = ''continue'', success = True, body = NoBody\<rparr> s
            in (map pc (runs s'), queued (the_runtime s'), map command (sent s')))
     (exec (\<lambda>_. Some (0, \<lparr>request_seq = 1, command = ''scopes'', success = True, body = OtherBody ''{}''\<rparr>))
        [Issue ''request_scopes'' ''{1}'', Malloc 0 16, WriteRequest 0, Invoke 0] newSession)
     = Some ([Calling 16], [], [])"
  by (simp add: lldbRun_def newSession_def newRuntime_def set_pc_def sendParsed_def
        sendResponse_def rewriteResponse_def continueRequest_def continue_runtime_def
        sendEvent_def Let_def)

end
